theory Spec2Isabelle
  imports Complex_Main "HOL-Library.Word" "HOL-Library.Monad_Syntax" "HOL-Library.Sublist"
begin

unbundle bit_operations_syntax

section \<open>JavaScript numbers\<close>

text \<open>
  The program computes with JavaScript numbers, the doubles of IEEE 754. A number of the
  model is the real value of a finite double other than negative zero, negative zero,
  one of the two infinities, or \<open>NaN\<close> (the payload of a \<open>NaN\<close> cannot be observed).
  Each operation computes the exact real result and rounds it to the nearest double,
  a tie going to the even mantissa, as the default rounding mode does; results beyond
  the range of the doubles become infinite, results too small become a zero with the
  sign of the exact result.
\<close>

datatype number = Num real | NegZero | PosInf | NegInf | NaN

text \<open>Two to a power that may be negative.\<close>

definition pow2 :: "int \<Rightarrow> real" where
  "pow2 e = (if 0 \<le> e then 2 ^ nat e else 1 / 2 ^ nat (- e))"

text \<open>The exponent of the highest bit of a positive whole number.\<close>

function ilog2 :: "int \<Rightarrow> int" where
  "ilog2 n = (if n \<le> 1 then 0 else 1 + ilog2 (n div 2))"
  by pat_completeness auto
termination
  by (relation "measure nat") auto

declare ilog2.simps [simp del]

text \<open>
  The binary exponent of a real other than zero: the \<open>e\<close> with
  \<open>2 ^ e \<le> \<bar>x\<bar> < 2 ^ (e + 1)\<close>.
\<close>

definition expo :: "real \<Rightarrow> int" where
  "expo x = (if 1 \<le> \<bar>x\<bar> then ilog2 \<lfloor>\<bar>x\<bar>\<rfloor> else - ilog2 (\<lceil>1 / \<bar>x\<bar>\<rceil> - 1) - 1)"

text \<open>The nearest whole number, a tie going to the even one.\<close>

definition round_even :: "real \<Rightarrow> int" where
  "round_even x =
     (let f = \<lfloor>x\<rfloor>; r = x - of_int f
      in if r < 1 / 2 then f else if 1 / 2 < r then f + 1 else if even f then f else f + 1)"

definition zero_signed :: "bool \<Rightarrow> number" where
  "zero_signed negative = (if negative then NegZero else Num 0)"

definition inf_signed :: "bool \<Rightarrow> number" where
  "inf_signed negative = (if negative then NegInf else PosInf)"

text \<open>
  Rounding a real to a double. A double has a mantissa of 53 bits and an exponent from
  \<open>-1022\<close> to \<open>1023\<close>; below \<open>2 ^ -1022\<close> the doubles are the multiples of \<open>2 ^ -1074\<close>.
  So \<open>x\<close> is rounded to a multiple \<open>m\<close> of the unit \<open>q\<close> of its binade, which is a
  double unless it reaches \<open>2 ^ 1024\<close>.
\<close>

definition fl :: "real \<Rightarrow> number" where
  "fl x =
     (let e = max (expo x) (- 1022); q = pow2 (e - 52); m = round_even (x / q)
      in if 1023 < e \<or> (e = 1023 \<and> 2 ^ 53 \<le> \<bar>m\<bar>) then inf_signed (x < 0)
         else if m = 0 then zero_signed (x < 0)
         else Num (of_int m * q))"

fun is_finite :: "number \<Rightarrow> bool" where
  "is_finite (Num a) = True"
| "is_finite NegZero = True"
| "is_finite _ = False"

text \<open>The real value of a finite number.\<close>

fun fv :: "number \<Rightarrow> real" where
  "fv (Num a) = a"
| "fv _ = 0"

fun sign_bit :: "number \<Rightarrow> bool" where
  "sign_bit (Num a) = (a < 0)"
| "sign_bit NegZero = True"
| "sign_bit NegInf = True"
| "sign_bit _ = False"

definition is_zero :: "number \<Rightarrow> bool" where
  "is_zero a = (a = Num 0 \<or> a = NegZero)"

text \<open>A number of the model that is a double: rounding leaves its value as it is.\<close>

definition is_double :: "number \<Rightarrow> bool" where
  "is_double a = (case a of Num r \<Rightarrow> fl r = Num r | _ \<Rightarrow> True)"

fun js_neg :: "number \<Rightarrow> number" where
  "js_neg (Num a) = (if a = 0 then NegZero else Num (- a))"
| "js_neg NegZero = Num 0"
| "js_neg PosInf = NegInf"
| "js_neg NegInf = PosInf"
| "js_neg NaN = NaN"

text \<open>
  The four operations. An exact result of zero has its sign by the rules of IEEE 754: a
  sum is negative zero only when both terms are negative zeros, a product or quotient
  has the sign of its operands combined.
\<close>

definition js_add :: "number \<Rightarrow> number \<Rightarrow> number" where
  "js_add a b =
     (if a = NaN \<or> b = NaN then NaN
      else if is_finite a \<and> is_finite b
      then (if fv a + fv b = 0 then zero_signed (sign_bit a \<and> sign_bit b) else fl (fv a + fv b))
      else if is_finite a then b
      else if is_finite b then a
      else if a = b then a else NaN)"

definition js_sub :: "number \<Rightarrow> number \<Rightarrow> number" where
  "js_sub a b = js_add a (js_neg b)"

definition js_mul :: "number \<Rightarrow> number \<Rightarrow> number" where
  "js_mul a b =
     (if a = NaN \<or> b = NaN then NaN
      else if is_finite a \<and> is_finite b
      then (if fv a * fv b = 0 then zero_signed (sign_bit a \<noteq> sign_bit b) else fl (fv a * fv b))
      else if (is_finite a \<and> fv a = 0) \<or> (is_finite b \<and> fv b = 0) then NaN
      else inf_signed (sign_bit a \<noteq> sign_bit b))"

definition js_div :: "number \<Rightarrow> number \<Rightarrow> number" where
  "js_div a b =
     (if a = NaN \<or> b = NaN then NaN
      else if is_finite a \<and> is_finite b
      then (if fv b = 0 then (if fv a = 0 then NaN else inf_signed (sign_bit a \<noteq> sign_bit b))
            else if fv a = 0 then zero_signed (sign_bit a \<noteq> sign_bit b)
            else fl (fv a / fv b))
      else if is_finite a then zero_signed (sign_bit a \<noteq> sign_bit b)
      else if is_finite b then inf_signed (sign_bit a \<noteq> sign_bit b)
      else NaN)"

text \<open>The comparisons: false when either side is \<open>NaN\<close>; the two zeros are equal.\<close>

definition js_lt :: "number \<Rightarrow> number \<Rightarrow> bool" where
  "js_lt a b =
     (if a = NaN \<or> b = NaN then False
      else if a = PosInf \<or> b = NegInf then False
      else if a = NegInf \<or> b = PosInf then True
      else fv a < fv b)"

definition js_gt :: "number \<Rightarrow> number \<Rightarrow> bool" where
  "js_gt a b = js_lt b a"

definition js_le :: "number \<Rightarrow> number \<Rightarrow> bool" where
  "js_le a b = (a \<noteq> NaN \<and> b \<noteq> NaN \<and> \<not> js_lt b a)"

definition js_ge :: "number \<Rightarrow> number \<Rightarrow> bool" where
  "js_ge a b = js_le b a"

text \<open>
  \<open>Math.max\<close> and \<open>Math.min\<close> of two arguments: \<open>NaN\<close> if either is; of the two zeros
  the positive one is the greater.
\<close>

definition Math_max :: "number \<Rightarrow> number \<Rightarrow> number" where
  "Math_max a b =
     (if a = NaN \<or> b = NaN then NaN
      else if js_lt a b then b
      else if js_lt b a then a
      else if a = NegZero then b else a)"

definition Math_min :: "number \<Rightarrow> number \<Rightarrow> number" where
  "Math_min a b =
     (if a = NaN \<or> b = NaN then NaN
      else if js_lt b a then b
      else if js_lt a b then a
      else if b = NegZero then b else a)"

text \<open>
  \<open>Math.round\<close>: the nearest whole number, a tie going up; negative zero for negative
  zero and for the numbers from \<open>-0.5\<close> up to zero. The result is exact: a double from
  \<open>2 ^ 52\<close> on is whole already.
\<close>

fun Math_round :: "number \<Rightarrow> number" where
  "Math_round (Num a) = (if - (1 / 2) \<le> a \<and> a < 0 then NegZero else Num (of_int \<lfloor>a + 1 / 2\<rfloor>))"
| "Math_round a = a"

text \<open>
  For the analysis of the rounding: the unit of the binade of \<open>x\<close>, and the reals that
  are doubles.
\<close>

definition ulp :: "real \<Rightarrow> real" where
  "ulp x = pow2 (max (expo x) (- 1022) - 52)"

definition representable :: "real \<Rightarrow> bool" where
  "representable y \<longleftrightarrow>
     (\<exists>m k. y = of_int m * pow2 k \<and> \<bar>m\<bar> < 2 ^ 53 \<and> - 1074 \<le> k \<and> \<bar>y\<bar> < pow2 1024)"

definition zero_or_nan :: "number \<Rightarrow> bool" where
  "zero_or_nan a = (is_zero a \<or> a = NaN)"

section \<open>Geometry (vision/types.ts, grounding/parser.ts)\<close>

record BoundingBox =
  x1 :: number
  y1 :: number
  x2 :: number
  y2 :: number

record Point =
  point_x :: number
  point_y :: number

text \<open>A box whose four coordinates are the finite numbers given.\<close>

definition fbox :: "real \<Rightarrow> real \<Rightarrow> real \<Rightarrow> real \<Rightarrow> BoundingBox" where
  "fbox a b c d = \<lparr>x1 = Num a, y1 = Num b, x2 = Num c, y2 = Num d\<rparr>"

definition normalizedToPixel :: "number \<Rightarrow> number \<Rightarrow> number" where
  "normalizedToPixel normalized dimension =
     Math_round (js_mul (js_div normalized (Num 1000)) dimension)"

definition pixelToNormalized :: "number \<Rightarrow> number \<Rightarrow> number" where
  "pixelToNormalized pixel dimension =
     Math_round (js_mul (js_div pixel dimension) (Num 1000))"

definition normalizedBoxToPixel :: "BoundingBox \<Rightarrow> number \<Rightarrow> number \<Rightarrow> BoundingBox" where
  "normalizedBoxToPixel bb width height =
     \<lparr>x1 = normalizedToPixel (x1 bb) width, y1 = normalizedToPixel (y1 bb) height,
      x2 = normalizedToPixel (x2 bb) width, y2 = normalizedToPixel (y2 bb) height\<rparr>"

definition pixelBoxToNormalized :: "BoundingBox \<Rightarrow> number \<Rightarrow> number \<Rightarrow> BoundingBox" where
  "pixelBoxToNormalized bb width height =
     \<lparr>x1 = pixelToNormalized (x1 bb) width, y1 = pixelToNormalized (y1 bb) height,
      x2 = pixelToNormalized (x2 bb) width, y2 = pixelToNormalized (y2 bb) height\<rparr>"

definition getBBoxCenter :: "BoundingBox \<Rightarrow> Point" where
  "getBBoxCenter bb =
     \<lparr>point_x = js_div (js_add (x1 bb) (x2 bb)) (Num 2),
      point_y = js_div (js_add (y1 bb) (y2 bb)) (Num 2)\<rparr>"

definition isPointInBox :: "Point \<Rightarrow> BoundingBox \<Rightarrow> bool" where
  "isPointInBox p bb =
     (js_ge (point_x p) (x1 bb) \<and> js_le (point_x p) (x2 bb) \<and>
      js_ge (point_y p) (y1 bb) \<and> js_le (point_y p) (y2 bb))"

definition calculateIoU :: "BoundingBox \<Rightarrow> BoundingBox \<Rightarrow> number" where
  "calculateIoU box1 box2 =
     (let ix1 = Math_max (x1 box1) (x1 box2);
          iy1 = Math_max (y1 box1) (y1 box2);
          ix2 = Math_min (x2 box1) (x2 box2);
          iy2 = Math_min (y2 box1) (y2 box2)
      in if js_lt ix2 ix1 \<or> js_lt iy2 iy1 then Num 0
         else
           let intersectionArea = js_mul (js_sub ix2 ix1) (js_sub iy2 iy1);
               box1Area = js_mul (js_sub (x2 box1) (x1 box1)) (js_sub (y2 box1) (y1 box1));
               box2Area = js_mul (js_sub (x2 box2) (x1 box2)) (js_sub (y2 box2) (y1 box2));
               unionArea = js_sub (js_add box1Area box2Area) intersectionArea
           in js_div intersectionArea unionArea)"

text \<open>
  The parts of \<open>calculateIoU\<close> by name: the area of a box as it computes it, and its
  test \<open>x2 < x1 || y2 < y1\<close> on the intersection of two boxes.
\<close>

definition box_area :: "BoundingBox \<Rightarrow> number" where
  "box_area bb = js_mul (js_sub (x2 bb) (x1 bb)) (js_sub (y2 bb) (y1 bb))"

definition separated :: "BoundingBox \<Rightarrow> BoundingBox \<Rightarrow> bool" where
  "separated box1 box2 =
     (js_lt (Math_min (x2 box1) (x2 box2)) (Math_max (x1 box1) (x1 box2)) \<or>
      js_lt (Math_min (y2 box1) (y2 box2)) (Math_max (y1 box1) (y1 box2)))"

text \<open>A box with \<open>x1 = x2\<close>, and one with \<open>y1 = y2\<close>: the boxes of zero area.\<close>

definition zero_width :: "BoundingBox \<Rightarrow> bool" where
  "zero_width bb = (is_finite (x1 bb) \<and> is_finite (x2 bb) \<and> fv (x1 bb) = fv (x2 bb))"

definition zero_height :: "BoundingBox \<Rightarrow> bool" where
  "zero_height bb = (is_finite (y1 bb) \<and> is_finite (y2 bb) \<and> fv (y1 bb) = fv (y2 bb))"

text \<open>A box with its two axes exchanged.\<close>

definition flip :: "BoundingBox \<Rightarrow> BoundingBox" where
  "flip bb = \<lparr>x1 = y1 bb, y1 = x1 bb, x2 = y2 bb, y2 = x2 bb\<rparr>"

section \<open>Teaching data (teaching/types.ts)\<close>

record UIElement =
  elem_id :: nat
  bbox :: BoundingBox
  normalizedBbox :: BoundingBox
  autoDescription :: string
  userDescription :: "string option"
  elementType :: "string option"
  confidence :: number
  timestamp :: number

record ElementMatchResult =
  element :: UIElement
  similarity :: number
  matched :: bool

section \<open>Matching current against remembered elements (teaching/service.ts)\<close>

text \<open>
  One turn of the inner loop of \<open>matchElements\<close>: the IoU of a current element with the
  remembered one replaces the best match only when it is strictly greater.
\<close>

definition match_step :: "UIElement \<Rightarrow> ElementMatchResult \<Rightarrow> UIElement \<Rightarrow> ElementMatchResult" where
  "match_step remembered bestMatch current =
     (let iou = calculateIoU (normalizedBbox current) (normalizedBbox remembered)
      in if js_gt iou (similarity bestMatch)
         then \<lparr>element = remembered, similarity = iou, matched = js_gt iou (Num (1 / 2))\<rparr>
         else bestMatch)"

definition matchElements :: "UIElement list \<Rightarrow> UIElement list \<Rightarrow> ElementMatchResult list" where
  "matchElements currentElements rememberedElements =
     map (\<lambda>remembered.
            foldl (match_step remembered)
              \<lparr>element = remembered, similarity = Num 0, matched = False\<rparr> currentElements)
         rememberedElements"

section \<open>Text and regular expressions\<close>

text \<open>
  A JavaScript string is modelled as a \<^typ>\<open>string\<close>: the list of its code units, taken
  below 256. The classes of the regular expressions are those of ECMAScript on that
  range: \<open>\d\<close> is an ASCII digit, \<open>\s\<close> is white space including the line terminators,
  and \<open>.\<close> is any character but a line terminator.
\<close>

definition is_digit :: "char \<Rightarrow> bool" where
  "is_digit c = (c \<in> set ''0123456789'')"

definition is_line_terminator :: "char \<Rightarrow> bool" where
  "is_line_terminator c = (c = CHR 0x0A \<or> c = CHR 0x0D)"

definition is_space :: "char \<Rightarrow> bool" where
  "is_space c = (c \<in> set [CHR 0x09, CHR 0x0A, CHR 0x0B, CHR 0x0C, CHR 0x0D, CHR 0x20, CHR 0xA0])"

text \<open>A literal piece of a pattern: the rest of the input behind it.\<close>

definition lit :: "string \<Rightarrow> string \<Rightarrow> string option" where
  "lit p s = (if take (length p) s = p then Some (drop (length p) s) else None)"

text \<open>
  The group \<open>(\d+(?:\.\d+)?)\<close>: the text it captures and the rest of the input. It is
  matched greedily. In each pattern below the group is followed by a literal comma or
  parenthesis, so no shorter capture can let the whole pattern succeed where the greedy
  one fails, and the backtracking of the engine is left out.
\<close>

definition match_number :: "string \<Rightarrow> (string \<times> string) option" where
  "match_number s =
     (let ip = takeWhile is_digit s; r = dropWhile is_digit s
      in if ip = [] then None
         else (case r of
                 [] \<Rightarrow> Some (ip, r)
               | c # r' \<Rightarrow>
                   if c = CHR ''.'' \<and> takeWhile is_digit r' \<noteq> []
                   then Some (ip @ c # takeWhile is_digit r', dropWhile is_digit r')
                   else Some (ip, r)))"

text \<open>
  \<open>parseFloat\<close> on the texts the groups capture, digits with an optional fraction: the
  double nearest to the value of the decimal, infinite when the value is beyond the range
  of the doubles (ECMAScript allows a second way of rounding a decimal of more than 20
  significant digits; the engines round to the nearest double). This is the model of
  \<open>parseFloat\<close> on these texts only: they have no sign, exponent or leading white space,
  which the model does not read; without a leading digit it answers \<open>NaN\<close>.
\<close>

definition digit_val :: "char \<Rightarrow> int" where
  "digit_val c = of_char c - 48"

definition digits_value :: "string \<Rightarrow> int" where
  "digits_value ds = foldl (\<lambda>acc c. 10 * acc + digit_val c) 0 ds"

definition parseFloat :: "string \<Rightarrow> number" where
  "parseFloat s =
     (let ip = takeWhile is_digit s; r = dropWhile is_digit s
      in if ip = [] then NaN
         else (case r of
                 [] \<Rightarrow> fl (of_int (digits_value ip))
               | c # r' \<Rightarrow>
                   if c = CHR ''.''
                   then let fp = takeWhile is_digit r'
                        in fl (of_int (digits_value ip) + of_int (digits_value fp) / 10 ^ length fp)
                   else fl (of_int (digits_value ip))))"

text \<open>
  The loop \<open>while ((match = regex.exec(text)) !== null)\<close> of a global pattern: the
  matcher \<open>m\<close> is tried at each position from left to right, it answers with the value of
  a match and the input behind the match, and the search goes on behind the match
  (\<open>skip\<close> counts the characters still to pass to reach \<open>lastIndex\<close>). None of the
  patterns here matches the empty string.
\<close>

fun exec_all :: "(string \<Rightarrow> ('a \<times> string) option) \<Rightarrow> nat \<Rightarrow> string \<Rightarrow> 'a list" where
  "exec_all m skip [] = []"
| "exec_all m skip (c # cs) =
     (if 0 < skip then exec_all m (skip - 1) cs
      else (case m (c # cs) of
              None \<Rightarrow> exec_all m 0 cs
            | Some (v, rest) \<Rightarrow> v # exec_all m (length cs - length rest) cs))"

text \<open>The text of a match (\<open>match[0]\<close>), from the input and what is left behind the match.\<close>

definition matched_text :: "string \<Rightarrow> string \<Rightarrow> string" where
  "matched_text s rest = take (length s - length rest) s"

section \<open>Grounding parser (grounding/parser.ts)\<close>

datatype GroundingType = RefT | BoxT | PointT

record GroundingFormat =
  gf_type :: GroundingType
  gf_content :: string
  gf_bbox :: "BoundingBox option"
  gf_point :: "Point option"
  gf_refId :: "string option"

text \<open>
  \<open>(.*?)</ref>\<close>: the shortest run of characters other than line terminators that is
  followed by the closing tag.
\<close>

fun ref_body :: "string \<Rightarrow> (string \<times> string) option" where
  "ref_body [] = None"
| "ref_body (c # cs) =
     (case lit ''</ref>'' (c # cs) of
        Some rest \<Rightarrow> Some ([], rest)
      | None \<Rightarrow>
          if is_line_terminator c then None
          else (case ref_body cs of
                  None \<Rightarrow> None
                | Some (g, rest) \<Rightarrow> Some (c # g, rest)))"

definition match_ref :: "string \<Rightarrow> (GroundingFormat \<times> string) option" where
  "match_ref s = do {
     r \<leftarrow> lit ''<ref>'' s;
     (g, rest) \<leftarrow> ref_body r;
     Some (\<lparr>gf_type = RefT, gf_content = g, gf_bbox = None, gf_point = None,
             gf_refId = Some g\<rparr>, rest)
   }"

definition match_box :: "string \<Rightarrow> (GroundingFormat \<times> string) option" where
  "match_box s = do {
     r0 \<leftarrow> lit ''<box>('' s;
     (n1, r1) \<leftarrow> match_number r0;
     r2 \<leftarrow> lit '','' r1;
     (n2, r3) \<leftarrow> match_number r2;
     r4 \<leftarrow> lit ''),('' r3;
     (n3, r5) \<leftarrow> match_number r4;
     r6 \<leftarrow> lit '','' r5;
     (n4, r7) \<leftarrow> match_number r6;
     rest \<leftarrow> lit '')</box>'' r7;
     Some (\<lparr>gf_type = BoxT, gf_content = matched_text s rest,
             gf_bbox = Some \<lparr>x1 = parseFloat n1, y1 = parseFloat n2,
                              x2 = parseFloat n3, y2 = parseFloat n4\<rparr>,
             gf_point = None, gf_refId = None\<rparr>, rest)
   }"

definition match_point :: "string \<Rightarrow> (GroundingFormat \<times> string) option" where
  "match_point s = do {
     r0 \<leftarrow> lit ''<point>('' s;
     (n1, r1) \<leftarrow> match_number r0;
     r2 \<leftarrow> lit '','' r1;
     (n2, r3) \<leftarrow> match_number r2;
     rest \<leftarrow> lit '')</point>'' r3;
     Some (\<lparr>gf_type = PointT, gf_content = matched_text s rest, gf_bbox = None,
             gf_point = Some \<lparr>point_x = parseFloat n1, point_y = parseFloat n2\<rparr>,
             gf_refId = None\<rparr>, rest)
   }"

definition parseGrounding :: "string \<Rightarrow> GroundingFormat list" where
  "parseGrounding text =
     exec_all match_ref 0 text @ exec_all match_box 0 text @ exec_all match_point 0 text"

definition extractBoundingBoxes :: "string \<Rightarrow> BoundingBox list" where
  "extractBoundingBoxes text =
     List.map_filter (\<lambda>f. if gf_type f = BoxT then gf_bbox f else None) (parseGrounding text)"

definition extractPoints :: "string \<Rightarrow> Point list" where
  "extractPoints text =
     List.map_filter (\<lambda>f. if gf_type f = PointT then gf_point f else None) (parseGrounding text)"

definition extractReferences :: "string \<Rightarrow> string list" where
  "extractReferences text =
     List.map_filter (\<lambda>f. if gf_type f = RefT \<and> gf_refId f \<noteq> Some [] then gf_refId f else None)
       (parseGrounding text)"

section \<open>The grounding text contract, in the words of the specification\<close>

text \<open>
  A non-negative decimal: digits, with an optional fraction of a point and digits. This
  and \<open>box_tag\<close> follow the specification, not the parser.
\<close>

definition decimal :: "string \<Rightarrow> bool" where
  "decimal s =
     (takeWhile is_digit s \<noteq> [] \<and>
      (case dropWhile is_digit s of
         [] \<Rightarrow> True
       | c # fp \<Rightarrow> c = CHR ''.'' \<and> fp \<noteq> [] \<and> list_all is_digit fp))"

text \<open>
  The value of a decimal: a digit of the whole part counts by the power of ten of its
  place, and the fraction is a tenth of its first digit and the fraction behind it.
\<close>

fun whole_value :: "string \<Rightarrow> real" where
  "whole_value [] = 0"
| "whole_value (c # cs) = of_int (digit_val c) * 10 ^ length cs + whole_value cs"

fun fraction_value :: "string \<Rightarrow> real" where
  "fraction_value [] = 0"
| "fraction_value (c # cs) = (of_int (digit_val c) + fraction_value cs) / 10"

definition decimal_value :: "string \<Rightarrow> real" where
  "decimal_value s =
     whole_value (takeWhile is_digit s) + fraction_value (drop 1 (dropWhile is_digit s))"

text \<open>The tag \<open><box>(a,b),(c,d)</box>\<close>.\<close>

definition box_tag :: "string \<Rightarrow> string \<Rightarrow> string \<Rightarrow> string \<Rightarrow> string" where
  "box_tag a b c d = ''<box>('' @ a @ '','' @ b @ ''),('' @ c @ '','' @ d @ '')</box>''"

text \<open>
  Results in the order of the text: they are matches of the pattern \<open>m\<close> at places of
  the text that increase along the list.
\<close>

definition in_document_order :: "(string \<Rightarrow> ('a \<times> string) option) \<Rightarrow> string \<Rightarrow> 'a list \<Rightarrow> bool" where
  "in_document_order m text vs \<longleftrightarrow>
     (\<exists>ps. length ps = length vs \<and> sorted_wrt (<) ps \<and>
        (\<forall>j<length vs. ps ! j < length text \<and> (\<exists>r. m (drop (ps ! j) text) = Some (vs ! j, r))))"

section \<open>Detection of elements (teaching/service.ts)\<close>

text \<open>An exception with its message.\<close>

datatype error = Error string

record VisionResponse =
  vr_text :: string
  vr_success :: bool
  vr_error :: "string option"

record Viewport =
  width :: number
  height :: number

text \<open>\<open>text.split('\n')\<close>: the pieces between the separators, at least one.\<close>

fun split_on :: "char \<Rightarrow> string \<Rightarrow> string list" where
  "split_on sep [] = [[]]"
| "split_on sep (c # cs) =
     (if c = sep then [] # split_on sep cs
      else (case split_on sep cs of
              [] \<Rightarrow> [[c]]
            | l # ls \<Rightarrow> (c # l) # ls))"

text \<open>\<open>s.includes(p)\<close>.\<close>

fun includes_str :: "string \<Rightarrow> string \<Rightarrow> bool" where
  "includes_str [] p = (p = [])"
| "includes_str (c # cs) p = (take (length p) (c # cs) = p \<or> includes_str cs p)"

text \<open>\<open>s.trim()\<close>.\<close>

definition trim :: "string \<Rightarrow> string" where
  "trim s = rev (dropWhile is_space (rev (dropWhile is_space s)))"

text \<open>
  \<open>\s*(.+)$\<close> behind a closing bracket, the capture of the group: \<open>\s*\<close> takes all the
  white space it can, and gives one character back when nothing is left for the group;
  the group runs to the end of the input and holds no line terminator.
\<close>

definition after_bracket :: "string \<Rightarrow> string option" where
  "after_bracket s =
     (let r = dropWhile is_space s
      in if r \<noteq> [] then (if list_ex is_line_terminator r then None else Some r)
         else if s \<noteq> [] \<and> \<not> is_line_terminator (last s) then Some [last s]
         else None)"

text \<open>\<open>line.match(/\]\s*(.+)$/)\<close>: the capture at the leftmost bracket where the pattern matches.\<close>

fun desc_match :: "string \<Rightarrow> string option" where
  "desc_match [] = None"
| "desc_match (c # cs) =
     (if c = CHR '']''
      then (case after_bracket cs of Some g \<Rightarrow> Some g | None \<Rightarrow> desc_match cs)
      else desc_match cs)"

text \<open>A natural number in decimal, as a template literal prints it.\<close>

fun nat_to_string :: "nat \<Rightarrow> string" where
  "nat_to_string n =
     (if n < 10 then [char_of (48 + n)]
      else nat_to_string (n div 10) @ [char_of (48 + n mod 10)])"

declare nat_to_string.simps [simp del]

text \<open>
  \<open>detectElements\<close>, from the answer of the vision model (\<open>callVisionModel\<close> catches its own
  errors), the outcome of the script that reads the viewport (an exception, no result,
  or the viewport) and the clock read for each element.
\<close>

definition detectElements ::
    "VisionResponse \<Rightarrow> error + Viewport option \<Rightarrow> (nat \<Rightarrow> number) \<Rightarrow> error + UIElement list" where
  "detectElements response script now =
     (if \<not> vr_success response \<or> vr_text response = []
      then Inl (Error (''Failed to detect elements: '' @
                       (case vr_error response of None \<Rightarrow> ''undefined'' | Some e \<Rightarrow> e)))
      else
        let boxes = extractBoundingBoxes (vr_text response)
        in case script of
             Inl e \<Rightarrow> Inl e
           | Inr None \<Rightarrow> Inl (Error ''Failed to get viewport dimensions'')
           | Inr (Some viewport) \<Rightarrow>
               let lines = filter (\<lambda>line. includes_str line ''<box>'')
                             (split_on (CHR 0x0A) (vr_text response))
               in Inr (map (\<lambda>(index, bb).
                         let line = (if index < length lines then lines ! index else []);
                             description = (case desc_match line of
                                              Some g \<Rightarrow> trim g
                                            | None \<Rightarrow> ''Element '' @ nat_to_string (index + 1))
                         in \<lparr>elem_id = index + 1,
                              bbox = bb,
                              normalizedBbox =
                                pixelBoxToNormalized bb (width viewport) (height viewport),
                              autoDescription = description,
                              userDescription = None,
                              elementType = None,
                              confidence = fl (8 / 10),
                              timestamp = now index\<rparr>)
                       (enumerate 0 boxes)))"

section \<open>Teaching sessions (teaching/service.ts)\<close>

record TeachingSession =
  tabId :: nat
  url :: string
  screenshot :: string
  detectedElements :: "UIElement list"
  userAnnotations :: "nat \<rightharpoonup> string"
  isActive :: bool

text \<open>The registry \<open>activeSessions\<close> of the service, keyed by tab.\<close>

type_synonym sessions = "nat \<rightharpoonup> TeachingSession"

text \<open>
  \<open>startTeaching\<close>, from the outcome of the capture, the inputs of \<open>detectElements\<close> and
  the outcome of drawing the overlays: the result of the call and the registry after it.
\<close>

definition startTeaching ::
    "sessions \<Rightarrow> nat \<Rightarrow> string \<Rightarrow> error + string \<Rightarrow> VisionResponse \<Rightarrow> error + Viewport option \<Rightarrow>
     (nat \<Rightarrow> number) \<Rightarrow> error option \<Rightarrow> (error + TeachingSession) \<times> sessions" where
  "startTeaching activeSessions tab page_url capture response script now overlay =
     (case capture of
        Inl e \<Rightarrow> (Inl e, activeSessions)
      | Inr shot \<Rightarrow>
          (case detectElements response script now of
             Inl e \<Rightarrow> (Inl e, activeSessions)
           | Inr detected \<Rightarrow>
               let session = \<lparr>tabId = tab, url = page_url, screenshot = shot,
                              detectedElements = detected, userAnnotations = Map.empty,
                              isActive = True\<rparr>;
                   registered = activeSessions(tab \<mapsto> session)
               in (case overlay of
                     Some e \<Rightarrow> (Inl e, registered)
                   | None \<Rightarrow> (Inr session, registered))))"

text \<open>\<open>detectedElements.find(e => e.id === elementId)\<close>, then the assignment to the element found.\<close>

fun annotate_first :: "nat \<Rightarrow> string \<Rightarrow> UIElement list \<Rightarrow> UIElement list" where
  "annotate_first elementId description [] = []"
| "annotate_first elementId description (e # es) =
     (if elem_id e = elementId then e\<lparr>userDescription := Some description\<rparr> # es
      else e # annotate_first elementId description es)"

definition annotateElement ::
    "sessions \<Rightarrow> nat \<Rightarrow> nat \<Rightarrow> string \<Rightarrow> (error + unit) \<times> sessions" where
  "annotateElement activeSessions tab elementId description =
     (case activeSessions tab of
        None \<Rightarrow> (Inl (Error ''No active teaching session''), activeSessions)
      | Some session \<Rightarrow>
          (Inr (),
           activeSessions(tab \<mapsto> session
             \<lparr>userAnnotations := (userAnnotations session)(elementId \<mapsto> description),
              detectedElements :=
                annotate_first elementId description (detectedElements session)\<rparr>)))"

text \<open>\<open>endTeaching\<close>, from the outcome of clearing the overlays.\<close>

definition endTeaching :: "sessions \<Rightarrow> nat \<Rightarrow> error option \<Rightarrow> (error + unit) \<times> sessions" where
  "endTeaching activeSessions tab cleared =
     (case activeSessions tab of
        None \<Rightarrow> (Inr (), activeSessions)
      | Some session \<Rightarrow>
          (case cleared of
             Some e \<Rightarrow> (Inl e, activeSessions)
           | None \<Rightarrow> (Inr (), activeSessions(tab := None))))"

section \<open>Memory store (teaching/storage.ts)\<close>

record PageMemory =
  pm_url :: string
  urlHash :: string
  domain :: string
  elements :: "UIElement list"
  screenshotHash :: string
  viewport :: Viewport
  lastUpdated :: number

text \<open>What \<open>new URL(url)\<close> answers, as far as the program reads it.\<close>

record URL =
  protocol :: string
  hostname :: string
  port :: string
  pathname :: string
  search :: string
  fragment :: string

text \<open>A number below 36 as one digit of \<open>toString(36)\<close>, and a whole number from 0 in base 36.\<close>

definition digit36 :: "int \<Rightarrow> char" where
  "digit36 k = (if k < 10 then char_of (48 + k) else char_of (87 + k))"

function radix36 :: "int \<Rightarrow> string" where
  "radix36 n = (if n < 36 then [digit36 n] else radix36 (n div 36) @ [digit36 (n mod 36)])"
  by pat_completeness auto
termination
  by (relation "measure nat") auto

declare radix36.simps [simp del]

text \<open>
  One turn of the loop of \<open>simpleHash\<close>. The shift and \<open>hash & hash\<close> convert to a
  32-bit integer, and the subtraction and the addition between them are exact, so the
  turn is arithmetic modulo \<open>2 ^ 32\<close>.
\<close>

definition hash_step :: "32 word \<Rightarrow> char \<Rightarrow> 32 word" where
  "hash_step hash ch =
     (let hash' = push_bit 5 hash - hash + of_nat (of_char ch) in hash' AND hash')"

definition simpleHash :: "string \<Rightarrow> string" where
  "simpleHash str = radix36 \<bar>sint (foldl hash_step 0 str)\<bar>"

text \<open>
  \<open>generateUrlHash\<close>. The constructor \<open>URL\<close> belongs to the platform and is a parameter:
  it answers \<open>None\<close> where the constructor throws.
\<close>

definition generateUrlHash :: "(string \<Rightarrow> URL option) \<Rightarrow> string \<Rightarrow> string" where
  "generateUrlHash newURL page_url =
     (case newURL page_url of
        Some urlObj \<Rightarrow> simpleHash (protocol urlObj @ ''//'' @ hostname urlObj @ pathname urlObj)
      | None \<Rightarrow> simpleHash page_url)"

definition generateScreenshotHash :: "string \<Rightarrow> string" where
  "generateScreenshotHash shot = simpleHash (take 1000 shot @ drop (length shot - 1000) shot)"

definition STORAGE_KEY_PREFIX :: string where
  "STORAGE_KEY_PREFIX = ''ui_memory_''"

text \<open>The part of \<open>chrome.storage.local\<close> that holds page memories.\<close>

type_synonym storage = "string \<rightharpoonup> PageMemory"

text \<open>\<open>savePageMemory\<close>, from the outcome of \<open>chrome.storage.local.set\<close>.\<close>

definition savePageMemory :: "error option \<Rightarrow> storage \<Rightarrow> PageMemory \<Rightarrow> (error + unit) \<times> storage" where
  "savePageMemory failure store memory =
     (case failure of
        Some e \<Rightarrow> (Inl e, store)
      | None \<Rightarrow> (Inr (), store(STORAGE_KEY_PREFIX @ urlHash memory \<mapsto> memory)))"

text \<open>\<open>getPageMemory\<close>: a failure of the store is logged and answered with \<open>null\<close>.\<close>

definition getPageMemory ::
    "(string \<Rightarrow> URL option) \<Rightarrow> error option \<Rightarrow> storage \<Rightarrow> string \<Rightarrow> PageMemory option" where
  "getPageMemory newURL failure store page_url =
     (case failure of
        Some e \<Rightarrow> None
      | None \<Rightarrow> store (STORAGE_KEY_PREFIX @ generateUrlHash newURL page_url))"

text \<open>
  \<open>saveSession\<close>, from the outcome of the script that reads the viewport, the clock and
  the outcome of the store: the result of the call and the store after it.
\<close>

definition saveSession ::
    "(string \<Rightarrow> URL option) \<Rightarrow> sessions \<Rightarrow> nat \<Rightarrow> error + Viewport option \<Rightarrow> number \<Rightarrow>
     error option \<Rightarrow> storage \<Rightarrow> (error + unit) \<times> storage" where
  "saveSession newURL activeSessions tab script now failure store =
     (case activeSessions tab of
        None \<Rightarrow> (Inl (Error ''No active teaching session''), store)
      | Some session \<Rightarrow>
          (case newURL (url session) of
             None \<Rightarrow> (Inl (Error ''Invalid URL''), store)
           | Some urlObj \<Rightarrow>
               (case script of
                  Inl e \<Rightarrow> (Inl e, store)
                | Inr None \<Rightarrow> (Inl (Error ''Failed to get viewport dimensions''), store)
                | Inr (Some vp) \<Rightarrow>
                    savePageMemory failure store
                      \<lparr>pm_url = url session,
                       urlHash = generateUrlHash newURL (url session),
                       domain = hostname urlObj,
                       elements = detectedElements session,
                       screenshotHash = generateScreenshotHash (screenshot session),
                       viewport = vp,
                       lastUpdated = now\<rparr>)))"

section \<open>Transport to the native host (computer/native-provider.ts)\<close>

record NativeMessage =
  action :: string
  params :: "string option"


text \<open>How the promise of a request ended: resolved with the data, or rejected with a message.\<close>

datatype outcome = Resolved "string option" | Rejected string

text \<open>
  The provider: its port (connected or \<open>null\<close>), the counter of message ids, the keys of
  \<open>pendingMessages\<close> in the order of insertion, and the configured timeout. Each entry of
  \<open>pendingMessages\<close> holds the \<open>resolve\<close> and \<open>reject\<close> of the promise made for its id;
  the model keeps, beside the fields of the class, how each promise was settled, the
  messages posted on the port and the timers armed with their delays. The counter is a
  natural number: it does not stop growing at \<open>2 ^ 53\<close>.
\<close>

record provider =
  connected :: bool
  messageId :: nat
  pendingMessages :: "nat list"
  messageTimeout :: "nat option"
  settled :: "nat \<rightharpoonup> outcome"
  posted :: "(nat \<times> NativeMessage) list"
  timers :: "(nat \<times> nat) list"

text \<open>A promise is settled once: a later \<open>resolve\<close> or \<open>reject\<close> changes nothing.\<close>

definition settle :: "nat \<Rightarrow> outcome \<Rightarrow> provider \<Rightarrow> provider" where
  "settle i out s =
     (case settled s i of
        None \<Rightarrow> s\<lparr>settled := (settled s)(i \<mapsto> out)\<rparr>
      | Some _ \<Rightarrow> s)"






definition dispose :: "provider \<Rightarrow> provider" where
  "dispose s =
     (foldl (\<lambda>st i. settle i (Rejected ''Provider disposed'') st)
        (s\<lparr>connected := False\<rparr>) (pendingMessages s))
     \<lparr>pendingMessages := []\<rparr>"


text \<open>A provider as its constructor leaves it.\<close>

definition new_provider :: "nat option \<Rightarrow> provider" where
  "new_provider t =
     \<lparr>connected = False, messageId = 0, pendingMessages = [], messageTimeout = t,
      settled = Map.empty, posted = [], timers = []\<rparr>"

text \<open>
  What holds in every state the program reaches: only ids below the counter have been
  given out, so the next id is neither pending nor settled.
\<close>

definition counter_ahead :: "provider \<Rightarrow> bool" where
  "counter_ahead s =
     ((\<forall>i\<in>set (pendingMessages s). i < messageId s) \<and>
      (\<forall>i. settled s i \<noteq> None \<longrightarrow> i < messageId s))"

section \<open>Sample data\<close>

text \<open>An element with the given id and box, for the concrete instances of the theorems.\<close>

abbreviation sample_element :: "nat \<Rightarrow> BoundingBox \<Rightarrow> UIElement" where
  "sample_element n bb \<equiv>
     \<lparr>elem_id = n, bbox = bb, normalizedBbox = bb, autoDescription = ''Element'',
      userDescription = None, elementType = None, confidence = fl (8 / 10),
      timestamp = Num 0\<rparr>"

text \<open>
  What the constructor \<open>URL\<close> answers at the two addresses of the example of the
  specification, \<open>https://a.com/x?y=1\<close> and \<open>https://a.com/x?y=2\<close>, and that it throws at
  \<open>not a url\<close>; the table has no other entry and is used at these three strings only.
\<close>

abbreviation sample_newURL :: "string \<Rightarrow> URL option" where
  "sample_newURL \<equiv>
     [''https://a.com/x?y=1'' \<mapsto>
        \<lparr>protocol = ''https:'', hostname = ''a.com'', port = [], pathname = ''/x'',
         search = ''?y=1'', fragment = []\<rparr>,
      ''https://a.com/x?y=2'' \<mapsto>
        \<lparr>protocol = ''https:'', hostname = ''a.com'', port = [], pathname = ''/x'',
         search = ''?y=2'', fragment = []\<rparr>]"

text \<open>A page memory for the given address, stamped with the given time.\<close>

abbreviation sample_memory :: "string \<Rightarrow> real \<Rightarrow> PageMemory" where
  "sample_memory u t \<equiv>
     \<lparr>pm_url = u, urlHash = generateUrlHash sample_newURL u, domain = ''a.com'',
      elements = [sample_element 1 (fbox 10 10 20 20)], screenshotHash = ''0'',
      viewport = \<lparr>width = Num 1000, height = Num 1000\<rparr>, lastUpdated = Num t\<rparr>"

text \<open>A session on tab 1 with one detected element.\<close>

abbreviation sample_session :: TeachingSession where
  "sample_session \<equiv>
     \<lparr>tabId = 1, url = ''https://a.com/x'', screenshot = ''c2hvdA=='',
      detectedElements = [sample_element 1 (fbox 10 10 20 20)],
      userAnnotations = Map.empty, isActive = True\<rparr>"


section \<open>Rounding to a double\<close>

lemma pow2_powi: "pow2 e = 2 powi e"
  unfolding pow2_def power_int_def by (simp add: power_one_over inverse_eq_divide)

lemma pow2_pos [simp]: "0 < pow2 e"
  by (simp add: pow2_powi)

lemma pow2_add: "pow2 (a + b) = pow2 a * pow2 b"
  by (simp add: pow2_powi power_int_add)

lemma pow2_diff: "pow2 (a - b) = pow2 a / pow2 b"
  by (simp add: pow2_powi power_int_diff)

lemma pow2_mono: "a \<le> b \<Longrightarrow> pow2 a \<le> pow2 b"
  by (simp add: pow2_powi power_int_increasing)

lemma pow2_strict_mono: "a < b \<Longrightarrow> pow2 a < pow2 b"
  by (simp add: pow2_powi power_int_strict_increasing)

lemma pow2_le_iff: "pow2 a \<le> pow2 b \<longleftrightarrow> a \<le> b"
  using pow2_mono [of a b] pow2_strict_mono [of b a] by (auto simp: not_le [symmetric])

lemma pow2_less_iff: "pow2 a < pow2 b \<longleftrightarrow> a < b"
  using pow2_mono [of b a] pow2_strict_mono [of a b] by (auto simp: not_less [symmetric])

lemma pow2_nat: "pow2 (int n) = 2 ^ n"
  by (simp add: pow2_def)

lemma pow2_0 [simp]: "pow2 0 = 1"
  by (simp add: pow2_def)

lemma pow2_Suc: "pow2 (e + 1) = 2 * pow2 e"
proof -
  have "pow2 1 = 2" by (simp add: pow2_def)
  then show ?thesis by (simp add: pow2_add)
qed

lemma ilog2_nonneg: "0 \<le> ilog2 n"
  by (induction n rule: ilog2.induct) (subst ilog2.simps, simp)

lemma ilog2_bounds: "1 \<le> n \<Longrightarrow> pow2 (ilog2 n) \<le> of_int n \<and> of_int n < pow2 (ilog2 n + 1)"
proof (induction n rule: ilog2.induct)
  case (1 n)
  show ?case
  proof (cases "n \<le> 1")
    case True
    with 1(2) have "n = 1" by simp
    then show ?thesis by (subst (1 2) ilog2.simps) (simp add: pow2_def)
  next
    case False
    then have "1 \<le> n div 2" by simp
    from 1(1) [OF False this]
    have lo: "pow2 (ilog2 (n div 2)) \<le> of_int (n div 2)"
      and hi: "of_int (n div 2) < pow2 (ilog2 (n div 2) + 1)" by simp_all
    have eq: "ilog2 n = 1 + ilog2 (n div 2)" using False by (subst ilog2.simps) simp
    have nn: "0 \<le> ilog2 (n div 2)" by (rule ilog2_nonneg)
    have p: "pow2 (ilog2 (n div 2)) = of_int (2 ^ nat (ilog2 (n div 2)))"
      using nn by (simp add: pow2_def)
    from lo have lo': "2 ^ nat (ilog2 (n div 2)) \<le> n div 2"
      unfolding p by (simp only: of_int_le_iff)
    have p': "pow2 (ilog2 (n div 2) + 1) = of_int (2 ^ nat (ilog2 (n div 2) + 1))"
      using nn by (simp add: pow2_def)
    from hi have hi': "n div 2 < 2 ^ nat (ilog2 (n div 2) + 1)"
      unfolding p' by (simp only: of_int_less_iff)
    have a: "2 * 2 ^ nat (ilog2 (n div 2)) \<le> n" using lo' by linarith
    have b: "n < 2 * 2 ^ nat (ilog2 (n div 2) + 1)" using hi' by linarith
    have "pow2 (ilog2 n) = of_int (2 * 2 ^ nat (ilog2 (n div 2)))"
      unfolding eq using nn by (simp add: pow2_def nat_add_distrib)
    moreover have "pow2 (ilog2 n + 1) = of_int (2 * 2 ^ nat (ilog2 (n div 2) + 1))"
      unfolding eq using nn by (simp add: pow2_def nat_add_distrib)
    ultimately show ?thesis using a b by (simp only: of_int_le_iff of_int_less_iff) 
  qed
qed

lemma expo_bounds:
  assumes "x \<noteq> 0"
  shows "pow2 (expo x) \<le> \<bar>x\<bar>" and "\<bar>x\<bar> < pow2 (expo x + 1)"
proof -
  have "pow2 (expo x) \<le> \<bar>x\<bar> \<and> \<bar>x\<bar> < pow2 (expo x + 1)"
  proof (cases "1 \<le> \<bar>x\<bar>")
    case True
    then have f: "1 \<le> \<lfloor>\<bar>x\<bar>\<rfloor>" by simp
    from ilog2_bounds [OF f] have lo: "pow2 (ilog2 \<lfloor>\<bar>x\<bar>\<rfloor>) \<le> of_int \<lfloor>\<bar>x\<bar>\<rfloor>"
      and hi: "of_int \<lfloor>\<bar>x\<bar>\<rfloor> < pow2 (ilog2 \<lfloor>\<bar>x\<bar>\<rfloor> + 1)" by simp_all
    have e: "expo x = ilog2 \<lfloor>\<bar>x\<bar>\<rfloor>" using True by (simp add: expo_def)
    have "pow2 (expo x) \<le> \<bar>x\<bar>" unfolding e using lo by linarith
    moreover have "\<bar>x\<bar> < pow2 (expo x + 1)"
    proof -
      have nn: "0 \<le> ilog2 \<lfloor>\<bar>x\<bar>\<rfloor> + 1" using ilog2_nonneg [of "\<lfloor>\<bar>x\<bar>\<rfloor>"] by simp
      then have p: "pow2 (ilog2 \<lfloor>\<bar>x\<bar>\<rfloor> + 1) = of_int (2 ^ nat (ilog2 \<lfloor>\<bar>x\<bar>\<rfloor> + 1))"
        by (simp add: pow2_def)
      from hi have "\<lfloor>\<bar>x\<bar>\<rfloor> < 2 ^ nat (ilog2 \<lfloor>\<bar>x\<bar>\<rfloor> + 1)"
        unfolding p by (simp only: of_int_less_iff)
      then have "\<bar>x\<bar> < of_int (2 ^ nat (ilog2 \<lfloor>\<bar>x\<bar>\<rfloor> + 1))"
        by (simp only: floor_less_iff)
      then show ?thesis unfolding e p .
    qed
    ultimately show ?thesis ..
  next
    case False
    define y where "y = 1 / \<bar>x\<bar>"
    define k where "k = ilog2 (\<lceil>y\<rceil> - 1)"
    from False assms have y1: "1 < y" unfolding y_def by simp
    then have c: "1 \<le> \<lceil>y\<rceil> - 1" by linarith
    from ilog2_bounds [OF c] have lo: "pow2 k \<le> of_int (\<lceil>y\<rceil> - 1)"
      and hi: "of_int (\<lceil>y\<rceil> - 1) < pow2 (k + 1)" unfolding k_def by simp_all
    have nn: "0 \<le> k" unfolding k_def by (rule ilog2_nonneg)
    have e: "expo x = - k - 1" using False by (simp add: expo_def k_def y_def)
    have "pow2 k < y" using lo by linarith
    then have up: "\<bar>x\<bar> < pow2 (- k)"
      using assms unfolding y_def by (simp add: pow2_powi power_int_minus field_simps)
    have p: "pow2 (k + 1) = of_int (2 ^ nat (k + 1))" using nn by (simp add: pow2_def)
    from hi have "\<lceil>y\<rceil> - 1 < 2 ^ nat (k + 1)" unfolding p by (simp only: of_int_less_iff)
    then have "\<lceil>y\<rceil> \<le> 2 ^ nat (k + 1)" by simp
    then have "y \<le> of_int (2 ^ nat (k + 1))" by (simp only: ceiling_le_iff)
    then have "y \<le> pow2 (k + 1)" unfolding p .
    then have low: "pow2 (- k - 1) \<le> \<bar>x\<bar>"
      using assms unfolding y_def
      by (simp add: pow2_powi power_int_minus field_simps power_int_diff power_int_add)
    show ?thesis unfolding e using low up by simp
  qed
  then show "pow2 (expo x) \<le> \<bar>x\<bar>" and "\<bar>x\<bar> < pow2 (expo x + 1)" by simp_all
qed

lemma expo_unique:
  assumes "pow2 e \<le> \<bar>x\<bar>" and "\<bar>x\<bar> < pow2 (e + 1)"
  shows "expo x = e"
proof -
  from assms(1) pow2_pos [of e] have "0 < \<bar>x\<bar>" by linarith
  then have nz: "x \<noteq> 0" by simp
  from expo_bounds [OF nz] assms have "pow2 e < pow2 (expo x + 1)" "pow2 (expo x) < pow2 (e + 1)"
    by linarith+
  then show ?thesis by (simp add: pow2_less_iff)
qed

lemma expo_less: "x \<noteq> 0 \<Longrightarrow> \<bar>x\<bar> < pow2 k \<Longrightarrow> expo x < k"
  using expo_bounds(1) [of x] pow2_less_iff [of "expo x" k] by linarith

lemma expo_ge: "pow2 k \<le> \<bar>x\<bar> \<Longrightarrow> k \<le> expo x"
proof -
  assume a: "pow2 k \<le> \<bar>x\<bar>"
  with pow2_pos [of k] have "0 < \<bar>x\<bar>" by linarith
  then have "x \<noteq> 0" by simp
  from expo_bounds(2) [OF this] a have "pow2 k < pow2 (expo x + 1)" by linarith
  then show ?thesis by (simp add: pow2_less_iff)
qed

lemma round_even_error: "\<bar>of_int (round_even x) - x\<bar> \<le> 1 / 2"
  unfolding round_even_def Let_def by (auto simp: abs_le_iff)

lemma round_even_int [simp]: "round_even (of_int n) = n"
  unfolding round_even_def Let_def by simp

lemma round_even_floor: "round_even x \<le> \<lfloor>x\<rfloor> + 1"
  unfolding round_even_def Let_def by simp

lemma round_even_le:
  assumes "x \<le> of_int n"
  shows "round_even x \<le> n"
proof (cases "\<lfloor>x\<rfloor> < n")
  case True
  with round_even_floor [of x] show ?thesis by linarith
next
  case False
  moreover have "\<lfloor>x\<rfloor> \<le> n" using floor_mono [OF assms] by simp
  ultimately have "\<lfloor>x\<rfloor> = n" by simp
  then have "of_int n \<le> x" by linarith
  with assms have "x = of_int n" by simp
  then show ?thesis by simp
qed

lemma round_even_ge: "of_int n \<le> x \<Longrightarrow> n \<le> round_even x"
proof -
  assume a: "of_int n \<le> x"
  then have "n \<le> \<lfloor>x\<rfloor>" by (simp add: le_floor_iff)
  then show ?thesis unfolding round_even_def Let_def by auto
qed

lemma round_even_abs_le: "\<bar>x\<bar> \<le> of_int n \<Longrightarrow> \<bar>round_even x\<bar> \<le> n"
proof -
  assume a: "\<bar>x\<bar> \<le> of_int n"
  then have "x \<le> of_int n" "of_int (- n) \<le> x" by simp_all
  from round_even_le [OF this(1)] round_even_ge [OF this(2)] show ?thesis by linarith
qed

lemma ulp_pos [simp]: "0 < ulp x"
  by (simp add: ulp_def)

lemma ulp_nonneg [simp]: "0 \<le> ulp x"
  by (simp add: ulp_def less_imp_le)

lemma pow2_nonneg [simp]: "0 \<le> pow2 e"
  by (simp add: less_imp_le)

lemma abs_pow2 [simp]: "\<bar>pow2 e\<bar> = pow2 e"
  by simp

lemma pow2_split: "c = a + b \<Longrightarrow> pow2 a * pow2 b = pow2 c"
  by (simp add: pow2_add)

lemma pow2_53: "pow2 53 = 2 ^ 53"
  by (simp add: pow2_def)

lemma pow2_52: "pow2 52 = 2 ^ 52"
  by (simp add: pow2_def)

lemma round_even_small:
  assumes "\<bar>z\<bar> < 1 / 2"
  shows "round_even z = 0"
proof (cases "0 \<le> z")
  case True
  with assms have "\<lfloor>z\<rfloor> = 0" by (intro floor_unique) simp_all
  with assms True show ?thesis unfolding round_even_def Let_def by simp
next
  case False
  with assms have "\<lfloor>z\<rfloor> = - 1" by (intro floor_unique) simp_all
  with assms False show ?thesis unfolding round_even_def Let_def by simp
qed

lemma fl_unfold:
  "fl x =
     (if 1023 < max (expo x) (- 1022) \<or>
         (max (expo x) (- 1022) = 1023 \<and> 2 ^ 53 \<le> \<bar>round_even (x / ulp x)\<bar>)
      then inf_signed (x < 0)
      else if round_even (x / ulp x) = 0 then zero_signed (x < 0)
      else Num (of_int (round_even (x / ulp x)) * ulp x))"
  unfolding fl_def ulp_def Let_def by simp

lemma quotient_bound:
  assumes "x \<noteq> 0"
  shows "\<bar>x / ulp x\<bar> < 2 ^ 53"
proof -
  have "\<bar>x\<bar> < pow2 (expo x + 1)" by (rule expo_bounds(2) [OF assms])
  also have "\<dots> \<le> pow2 (max (expo x) (- 1022) + 1)" by (rule pow2_mono) simp
  also have "\<dots> = pow2 53 * ulp x" unfolding ulp_def by (rule pow2_split [symmetric]) simp
  finally have "\<bar>x\<bar> / ulp x < pow2 53" by (simp add: pos_divide_less_eq)
  then show ?thesis by (simp add: pow2_53)
qed

lemma mantissa_bound: "x \<noteq> 0 \<Longrightarrow> \<bar>round_even (x / ulp x)\<bar> \<le> 2 ^ 53"
  using quotient_bound [of x] round_even_abs_le [of "x / ulp x" "2 ^ 53"] by simp

lemma fl_exact:
  assumes y: "y = of_int m * pow2 k" and m: "\<bar>m\<bar> < 2 ^ 53" and k: "- 1074 \<le> k"
    and nz: "y \<noteq> 0" and top: "\<bar>y\<bar> < pow2 1024"
  shows "fl y = Num y"
proof -
  define e where "e = max (expo y) (- 1022)"
  have mm: "\<bar>of_int m :: real\<bar> < 2 ^ 53" using m by (simp flip: of_int_abs)
  have "\<bar>y\<bar> = \<bar>of_int m\<bar> * pow2 k" unfolding y by (simp add: abs_mult)
  also have "\<dots> < 2 ^ 53 * pow2 k" using mm by simp
  also have "\<dots> = pow2 (k + 53)" unfolding pow2_53 [symmetric] by (rule pow2_split) simp
  finally have "expo y < k + 53" by (rule expo_less [OF nz])
  with k have j: "0 \<le> k - (e - 52)" unfolding e_def by simp
  have q: "ulp y = pow2 (e - 52)" unfolding ulp_def e_def ..
  have "y / ulp y = of_int m * pow2 k / pow2 (e - 52)" by (metis y q)
  also have "\<dots> = of_int m * pow2 (k - (e - 52))" by (simp add: pow2_diff)
  also have "pow2 (k - (e - 52)) = of_int (2 ^ nat (k - (e - 52)))" using j by (simp add: pow2_def)
  finally have quot: "y / ulp y = of_int (m * 2 ^ nat (k - (e - 52)))" by simp
  have r: "round_even (y / ulp y) = m * 2 ^ nat (k - (e - 52))"
    unfolding quot by (rule round_even_int)
  have "ulp y \<noteq> 0" using ulp_pos [of y] by linarith
  then have val: "of_int (round_even (y / ulp y)) * ulp y = y"
    unfolding r quot [symmetric] by simp
  have nz': "round_even (y / ulp y) \<noteq> 0" using val nz by auto
  have "expo y < 1024" by (rule expo_less [OF nz top])
  then have e1: "e \<le> 1023" unfolding e_def by simp
  have "\<bar>round_even (y / ulp y)\<bar> < 2 ^ 53" if "e = 1023"
  proof -
    have "\<bar>y / ulp y\<bar> < 2 ^ 53" by (rule quotient_bound [OF nz])
    then have "\<bar>of_int (m * 2 ^ nat (k - (e - 52))) :: real\<bar> < of_int (2 ^ 53)" unfolding quot by simp
    then show ?thesis unfolding r by (simp only: of_int_abs [symmetric] of_int_less_iff)
  qed
  with e1 show ?thesis
    unfolding fl_unfold e_def [symmetric] val using nz' by auto
qed

lemma fl_zero [simp]: "fl 0 = Num 0"
  unfolding fl_unfold by (simp add: zero_signed_def round_even_def expo_def ilog2.simps)

lemma representable_fl: "representable y \<Longrightarrow> fl y = Num y"
  unfolding representable_def using fl_exact by (cases "y = 0") auto

lemma fl_representable:
  assumes "fl x = Num y"
  shows "representable y"
proof (cases "x = 0")
  case True
  with assms have "y = 0" by simp
  then show ?thesis unfolding representable_def by (intro exI [of _ 0]) simp
next
  case False
  define e where "e = max (expo x) (- 1022)"
  define m where "m = round_even (x / ulp x)"
  from assms have no: "\<not> (1023 < e \<or> (e = 1023 \<and> 2 ^ 53 \<le> \<bar>m\<bar>))" and yv: "y = of_int m * ulp x"
    unfolding fl_unfold e_def m_def
    by (auto simp: inf_signed_def zero_signed_def split: if_splits)
  have mb: "\<bar>m\<bar> \<le> 2 ^ 53" unfolding m_def by (rule mantissa_bound [OF False])
  have q: "ulp x = pow2 (e - 52)" unfolding ulp_def e_def ..
  have elo: "- 1022 \<le> e" unfolding e_def by simp
  show ?thesis
  proof (cases "\<bar>m\<bar> < 2 ^ 53")
    case True
    have "\<bar>y\<bar> = \<bar>of_int m\<bar> * pow2 (e - 52)" unfolding yv q by (simp add: abs_mult)
    also have "\<dots> < 2 ^ 53 * pow2 (e - 52)" using True by (simp flip: of_int_abs)
    also have "\<dots> = pow2 (e + 1)" unfolding pow2_53 [symmetric] by (rule pow2_split) simp
    also have "\<dots> \<le> pow2 1024" using no by (intro pow2_mono) simp
    finally show ?thesis unfolding representable_def
      using True elo yv q by (intro exI [of _ m] exI [of _ "e - 52"]) simp
  next
    case False
    with mb have m53: "\<bar>m\<bar> = 2 ^ 53" by simp
    with no have e2: "e < 1023" by auto
    have "even \<bar>m\<bar>" unfolding m53 by simp
    then have "even m" by simp
    then obtain c where c: "m = 2 * c" by (rule evenE)
    then have mc: "m div 2 = c" by simp
    have y2: "y = of_int (m div 2) * pow2 (e - 51)"
    proof -
      have "pow2 (e - 51) = 2 * pow2 (e - 52)" using pow2_Suc [of "e - 52"] by simp
      then show ?thesis unfolding yv q mc c by simp
    qed
    have "2 * \<bar>c\<bar> = 2 ^ 53" using m53 unfolding c by (simp add: abs_mult)
    then have md: "\<bar>m div 2\<bar> = 2 ^ 52" unfolding mc by simp
    have "\<bar>y\<bar> = \<bar>of_int (m div 2)\<bar> * pow2 (e - 51)" unfolding y2 by (simp add: abs_mult)
    also have "\<dots> = 2 ^ 52 * pow2 (e - 51)" using md by (simp flip: of_int_abs)
    also have "\<dots> = pow2 (e + 1)" unfolding pow2_52 [symmetric] by (rule pow2_split) simp
    also have "\<dots> < pow2 1024" using e2 by (intro pow2_strict_mono) simp
    finally show ?thesis unfolding representable_def
      using md elo y2 by (intro exI [of _ "m div 2"] exI [of _ "e - 51"]) simp
  qed
qed

lemma fl_error:
  assumes "is_finite (fl x)"
  shows "\<bar>fv (fl x) - x\<bar> \<le> ulp x / 2"
proof -
  define m where "m = round_even (x / ulp x)"
  have v: "fv (fl x) = of_int m * ulp x"
    using assms unfolding fl_unfold m_def
    by (auto simp: inf_signed_def zero_signed_def split: if_splits)
  have "\<bar>of_int m - x / ulp x\<bar> \<le> 1 / 2" unfolding m_def by (rule round_even_error)
  then have "\<bar>of_int m - x / ulp x\<bar> * ulp x \<le> 1 / 2 * ulp x"
    by (rule mult_right_mono) simp
  moreover have "\<bar>of_int m - x / ulp x\<bar> * ulp x = \<bar>of_int m * ulp x - x\<bar>"
  proof -
    have "\<bar>of_int m - x / ulp x\<bar> * ulp x = \<bar>(of_int m - x / ulp x) * ulp x\<bar>"
      by (simp add: abs_mult)
    also have "(of_int m - x / ulp x) * ulp x = of_int m * ulp x - x"
    proof -
      have "ulp x \<noteq> 0" using ulp_pos [of x] by linarith
      then show ?thesis by (simp add: left_diff_distrib)
    qed
    finally show ?thesis .
  qed
  ultimately show ?thesis unfolding v by simp
qed

lemma ulp_le:
  assumes "x \<noteq> 0"
  shows "ulp x \<le> \<bar>x\<bar> * pow2 (- 52) + pow2 (- 1074)"
proof (cases "- 1022 \<le> expo x")
  case True
  then have "ulp x = pow2 (expo x) * pow2 (- 52)" unfolding ulp_def by (simp add: pow2_add [symmetric])
  also have "\<dots> \<le> \<bar>x\<bar> * pow2 (- 52)" using expo_bounds(1) [OF assms] by simp
  finally show ?thesis using pow2_pos [of "- 1074"] by linarith
next
  case False
  then have "ulp x = pow2 (- 1074)" unfolding ulp_def by (simp add: max_def)
  moreover have "0 \<le> \<bar>x\<bar> * pow2 (- 52)" by simp
  ultimately show ?thesis by linarith
qed

lemma fl_error_bound:
  assumes "is_finite (fl x)"
  shows "\<bar>fv (fl x) - x\<bar> \<le> \<bar>x\<bar> * pow2 (- 53) + pow2 (- 1075)"
proof (cases "x = 0")
  case True
  then show ?thesis by simp
next
  case False
  have h1: "pow2 (- 52) = 2 * pow2 (- 53)" using pow2_Suc [of "- 53"] by simp
  have h2: "pow2 (- 1074) = 2 * pow2 (- 1075)" using pow2_Suc [of "- 1075"] by simp
  from fl_error [OF assms] ulp_le [OF False] show ?thesis unfolding h1 h2 by simp
qed

lemma fl_overflow:
  assumes "pow2 1024 \<le> \<bar>x\<bar>"
  shows "fl x = inf_signed (x < 0)"
proof -
  from expo_ge [OF assms] show ?thesis unfolding fl_unfold by simp
qed

lemma fl_underflow:
  assumes "\<bar>x\<bar> < pow2 (- 1075)"
  shows "fl x = zero_signed (x < 0)"
proof (cases "x = 0")
  case True
  then show ?thesis by (simp add: zero_signed_def)
next
  case False
  have "\<bar>x\<bar> < pow2 (- 1022)" using assms pow2_strict_mono [of "- 1075" "- 1022"] by simp
  then have "expo x < - 1022" by (rule expo_less [OF False])
  then have q: "ulp x = pow2 (- 1074)" unfolding ulp_def by simp
  have "pow2 (- 1075) = pow2 (- 1074) / 2" using pow2_Suc [of "- 1075"] by simp
  with assms have "\<bar>x\<bar> / pow2 (- 1074) < 1 / 2" by (simp add: pos_divide_less_eq)
  then have "\<bar>x / ulp x\<bar> < 1 / 2" unfolding q by simp
  then have "round_even (x / ulp x) = 0" by (rule round_even_small)
  moreover have "max (expo x) (- 1022) = - 1022" using \<open>expo x < - 1022\<close> by simp
  ultimately show ?thesis unfolding fl_unfold by simp
qed

section \<open>Arithmetic and order of JavaScript numbers\<close>

lemmas num_defs = js_add_def js_sub_def js_mul_def js_div_def js_lt_def js_le_def js_gt_def js_ge_def
  Math_max_def Math_min_def zero_signed_def inf_signed_def is_zero_def

lemma Math_max_commute: "Math_max a b = Math_max b a"
  by (cases a; cases b) (auto simp: Math_max_def js_lt_def)

lemma Math_min_commute: "Math_min a b = Math_min b a"
  by (cases a; cases b) (auto simp: Math_min_def js_lt_def)

lemma js_add_commute: "js_add a b = js_add b a"
  by (cases a; cases b) (auto simp: js_add_def add.commute conj_commute)

lemma js_mul_commute: "js_mul a b = js_mul b a"
  by (cases a; cases b) (auto simp: js_mul_def mult.commute)

lemma js_lt_irrefl [simp]: "\<not> js_lt a a"
  by (cases a) (auto simp: js_lt_def)

lemma js_lt_trans: "js_lt a b \<Longrightarrow> js_lt b c \<Longrightarrow> js_lt a c"
  by (cases a; cases b; cases c) (auto simp: js_lt_def)

lemma js_lt_not_NaN: "js_lt a b \<Longrightarrow> a \<noteq> NaN \<and> b \<noteq> NaN"
  by (auto simp: js_lt_def)

lemma Math_max_same: "a \<noteq> NaN \<Longrightarrow> Math_max a a = a"
  by (simp add: Math_max_def)

lemma Math_min_same: "a \<noteq> NaN \<Longrightarrow> Math_min a a = a"
  by (simp add: Math_min_def)

lemma js_lt_Math_min:
  "a \<noteq> NaN \<Longrightarrow> b \<noteq> NaN \<Longrightarrow> js_lt (Math_min a b) c \<longleftrightarrow> js_lt a c \<or> js_lt b c"
  by (cases a; cases b; cases c) (auto simp: Math_min_def js_lt_def)

lemma js_lt_Math_max:
  "c \<noteq> NaN \<Longrightarrow> d \<noteq> NaN \<Longrightarrow> js_lt a (Math_max c d) \<longleftrightarrow> js_lt a c \<or> js_lt a d"
  by (cases a; cases c; cases d) (auto simp: Math_max_def js_lt_def)

lemma js_lt_min_max:
  assumes "js_lt a d \<or> js_lt b c \<or> js_lt a c \<or> js_lt b d"
    and "a \<noteq> NaN" "b \<noteq> NaN" "c \<noteq> NaN" "d \<noteq> NaN"
  shows "js_lt (Math_min a b) (Math_max c d)"
  using assms by (auto simp: js_lt_Math_min js_lt_Math_max)

lemma calculateIoU_commute: "calculateIoU a b = calculateIoU b a"
  by (simp add: calculateIoU_def Let_def Math_max_commute [of "x1 a"] Math_max_commute [of "y1 a"]
      Math_min_commute [of "x2 a"] Math_min_commute [of "y2 a"] js_add_commute)

lemma calculateIoU_separated: "separated a b \<Longrightarrow> calculateIoU a b = Num 0"
  by (simp add: calculateIoU_def separated_def Let_def)

lemma calculateIoU_disjoint_x:
  assumes "js_lt (x2 a) (x1 b) \<or> js_lt (x2 b) (x1 a)"
    and "x1 a \<noteq> NaN" "x2 a \<noteq> NaN" "x1 b \<noteq> NaN" "x2 b \<noteq> NaN"
  shows "calculateIoU a b = Num 0"
proof -
  have "js_lt (Math_min (x2 a) (x2 b)) (Math_max (x1 a) (x1 b))"
    using assms by (intro js_lt_min_max) auto
  then show ?thesis by (simp add: calculateIoU_separated separated_def)
qed

lemma calculateIoU_disjoint_y:
  assumes "js_lt (y2 a) (y1 b) \<or> js_lt (y2 b) (y1 a)"
    and "y1 a \<noteq> NaN" "y2 a \<noteq> NaN" "y1 b \<noteq> NaN" "y2 b \<noteq> NaN"
  shows "calculateIoU a b = Num 0"
proof -
  have "js_lt (Math_min (y2 a) (y2 b)) (Math_max (y1 a) (y1 b))"
    using assms by (intro js_lt_min_max) auto
  then show ?thesis by (simp add: calculateIoU_separated separated_def)
qed

text \<open>What the product of two numbers is when it is a number other than zero.\<close>

lemma js_mul_Num:
  assumes "js_mul a b = Num v" and "v \<noteq> 0"
  shows "fl (fv a * fv b) = Num v" and "is_finite a" and "is_finite b"
  using assms
  by (auto simp: js_mul_def zero_signed_def inf_signed_def split: if_splits)

lemma js_sub_finite:
  assumes "is_finite (js_sub a b)"
  shows "is_finite a" and "is_finite b"
  using assms by (cases a; cases b; auto simp: js_sub_def js_add_def split: if_splits)+

lemma js_add_Num_Num: "a + b \<noteq> 0 \<Longrightarrow> js_add (Num a) (Num b) = fl (a + b)"
  by (simp add: js_add_def)

lemma js_sub_Num_Num: "a - b \<noteq> 0 \<Longrightarrow> b \<noteq> 0 \<Longrightarrow> js_sub (Num a) (Num b) = fl (a - b)"
  by (simp add: js_sub_def js_add_def)

lemma js_div_Num_Num: "a \<noteq> 0 \<Longrightarrow> b \<noteq> 0 \<Longrightarrow> js_div (Num a) (Num b) = fl (a / b)"
  by (simp add: js_div_def)

lemma fl_one [simp]: "fl 1 = Num 1"
  by (rule fl_exact [of 1 1 0]) (simp_all add: pow2_def)

lemma representable_double:
  assumes "representable y" and "\<bar>y\<bar> < pow2 1023"
  shows "representable (2 * y)"
proof -
  from assms(1) obtain m k where "y = of_int m * pow2 k" "\<bar>m\<bar> < 2 ^ 53" "- 1074 \<le> k"
    unfolding representable_def by blast
  moreover have "\<bar>2 * y\<bar> < pow2 1024" using assms(2) pow2_Suc [of 1023] by simp
  ultimately show ?thesis
    unfolding representable_def
    by (intro exI [of _ m] exI [of _ "k + 1"]) (simp add: pow2_Suc)
qed

lemma calculateIoU_same:
  assumes wf: "js_le (x1 a) (x2 a)" "js_le (y1 a) (y2 a)"
    and area: "box_area a = Num A" and pos: "0 < A" and top: "A < pow2 1023"
  shows "calculateIoU a a = Num 1"
proof -
  from wf have nn: "x1 a \<noteq> NaN" "x2 a \<noteq> NaN" "y1 a \<noteq> NaN" "y2 a \<noteq> NaN"
    and no: "\<not> js_lt (x2 a) (x1 a)" "\<not> js_lt (y2 a) (y1 a)"
    by (auto simp: js_le_def)
  from area pos have "fl (fv (js_sub (x2 a) (x1 a)) * fv (js_sub (y2 a) (y1 a))) = Num A"
    unfolding box_area_def by (intro js_mul_Num(1)) simp_all
  then have r: "representable A" by (rule fl_representable)
  have r2: "representable (2 * A)" using r pos top by (intro representable_double) simp_all
  have s: "js_add (Num A) (Num A) = Num (2 * A)"
    using pos representable_fl [OF r2] by (simp add: js_add_Num_Num)
  have d: "js_sub (Num (2 * A)) (Num A) = Num A"
    using pos representable_fl [OF r] by (simp add: js_sub_Num_Num)
  have q: "js_div (Num A) (Num A) = Num 1"
    using pos by (simp add: js_div_Num_Num)
  show ?thesis
    unfolding calculateIoU_def Let_def
    using nn no area [unfolded box_area_def] by (simp add: Math_max_same Math_min_same s d q)
qed

section \<open>Rounding is monotone\<close>

lemma round_even_ge_floor: "\<lfloor>x\<rfloor> \<le> round_even x"
  unfolding round_even_def Let_def by simp

lemma round_even_mono:
  assumes "x \<le> y"
  shows "round_even x \<le> round_even y"
proof (cases "\<lfloor>x\<rfloor> < \<lfloor>y\<rfloor>")
  case True
  with round_even_floor [of x] round_even_ge_floor [of y] show ?thesis by linarith
next
  case False
  with floor_mono [OF assms] have "\<lfloor>x\<rfloor> = \<lfloor>y\<rfloor>" by simp
  with assms show ?thesis unfolding round_even_def Let_def by auto
qed

lemma round_even_minus: "round_even (- x) = - round_even x"
proof (cases "x = of_int \<lfloor>x\<rfloor>")
  case True
  then obtain n where "x = of_int n" ..
  then have "round_even (- x) = round_even (of_int (- n))" by simp
  also have "\<dots> = - n" by (rule round_even_int)
  finally show ?thesis using \<open>x = of_int n\<close> by simp
next
  case False
  then have lt: "of_int \<lfloor>x\<rfloor> < x" using of_int_floor_le [of x] by linarith
  have "\<lfloor>- x\<rfloor> = - \<lfloor>x\<rfloor> - 1"
    by (rule floor_unique) (use lt in simp_all, linarith)
  then show ?thesis unfolding round_even_def Let_def by auto
qed

lemma round_even_abs: "\<bar>round_even z\<bar> = round_even \<bar>z\<bar>"
proof (cases "0 \<le> z")
  case True
  then have "0 \<le> round_even z" using round_even_ge [of 0 z] by simp
  with True show ?thesis by simp
next
  case False
  then have "round_even z \<le> 0" using round_even_le [of z 0] by simp
  with False show ?thesis by (simp add: round_even_minus)
qed

lemma expo_minus [simp]: "expo (- x) = expo x"
  by (simp add: expo_def)

lemma ulp_minus [simp]: "ulp (- x) = ulp x"
  by (simp add: ulp_def)

lemma ulp_abs [simp]: "ulp \<bar>x\<bar> = ulp x"
  by (simp add: abs_if)

lemma mantissa_abs: "\<bar>round_even (x / ulp x)\<bar> = round_even (\<bar>x\<bar> / ulp x)"
  by (simp add: round_even_abs)

lemma expo_mono:
  assumes "x \<noteq> 0" and "\<bar>x\<bar> \<le> \<bar>y\<bar>"
  shows "expo x \<le> expo y"
proof -
  from assms have "y \<noteq> 0" by auto
  from expo_bounds(1) [OF assms(1)] expo_bounds(2) [OF this] assms(2)
  have "pow2 (expo x) < pow2 (expo y + 1)" by linarith
  then show ?thesis by (simp add: pow2_less_iff)
qed

lemma fl_infinite_iff:
  "\<not> is_finite (fl x) \<longleftrightarrow>
     1023 < max (expo x) (- 1022) \<or>
     (max (expo x) (- 1022) = 1023 \<and> 2 ^ 53 \<le> round_even (\<bar>x\<bar> / ulp x))"
  unfolding fl_unfold mantissa_abs by (auto simp: inf_signed_def zero_signed_def)

lemma fl_finite_mono:
  assumes fin: "is_finite (fl y)" and le: "\<bar>x\<bar> \<le> \<bar>y\<bar>"
  shows "is_finite (fl x)"
proof (cases "x = 0")
  case True
  then show ?thesis by simp
next
  case False
  have e: "expo x \<le> expo y" by (rule expo_mono [OF False le])
  show ?thesis
  proof (rule ccontr)
    assume "\<not> is_finite (fl x)"
    then consider "1023 < expo x" | "expo x = 1023" "2 ^ 53 \<le> round_even (\<bar>x\<bar> / ulp x)"
      unfolding fl_infinite_iff by (auto simp: max_def split: if_splits)
    then have "\<not> is_finite (fl y)"
    proof cases
      case 1
      with e show ?thesis unfolding fl_infinite_iff by simp
    next
      case 2
      show ?thesis
      proof (cases "expo y = 1023")
        case True
        with 2 have u: "ulp y = ulp x" unfolding ulp_def by simp
        have "\<bar>x\<bar> / ulp x \<le> \<bar>y\<bar> / ulp x" using le by (simp add: divide_right_mono)
        from round_even_mono [OF this] 2 True show ?thesis
          unfolding fl_infinite_iff u by simp
      next
        case ne: False
        with e 2 have "1023 < expo y" by simp
        then show ?thesis unfolding fl_infinite_iff by simp
      qed
    qed
    with fin show False by simp
  qed
qed

lemma fv_fl: "is_finite (fl x) \<Longrightarrow> fv (fl x) = of_int (round_even (x / ulp x)) * ulp x"
  unfolding fl_unfold by (auto simp: inf_signed_def zero_signed_def split: if_splits)

lemma fv_fl_nonneg: "0 \<le> x \<Longrightarrow> 0 \<le> fv (fl x)"
proof (cases "is_finite (fl x)")
  case True
  assume "0 \<le> x"
  then have "0 \<le> round_even (x / ulp x)" using round_even_ge [of 0 "x / ulp x"] by simp
  then show ?thesis unfolding fv_fl [OF True] by simp
next
  case False
  then show ?thesis by (cases "fl x") simp_all
qed

lemma fv_fl_nonpos: "x \<le> 0 \<Longrightarrow> fv (fl x) \<le> 0"
proof (cases "is_finite (fl x)")
  case True
  assume "x \<le> 0"
  then have "x / ulp x \<le> 0" by (simp add: divide_nonpos_pos)
  then have "round_even (x / ulp x) \<le> 0" using round_even_le [of "x / ulp x" 0] by simp
  then show ?thesis unfolding fv_fl [OF True] by (simp add: mult_nonpos_nonneg)
next
  case False
  then show ?thesis by (cases "fl x") simp_all
qed

lemma fl_mono_pos:
  assumes "0 < x" and "x \<le> y" and fx: "is_finite (fl x)" and fy: "is_finite (fl y)"
  shows "fv (fl x) \<le> fv (fl y)"
proof -
  define ex where "ex = max (expo x) (- 1022)"
  define ey where "ey = max (expo y) (- 1022)"
  from assms have nz: "x \<noteq> 0" "y \<noteq> 0" and ab: "\<bar>x\<bar> \<le> \<bar>y\<bar>" by simp_all
  have "expo x \<le> expo y" by (rule expo_mono [OF nz(1) ab])
  then have le: "ex \<le> ey" unfolding ex_def ey_def by simp
  have ux: "ulp x = pow2 (ex - 52)" and uy: "ulp y = pow2 (ey - 52)"
    unfolding ulp_def ex_def ey_def by simp_all
  show ?thesis
  proof (cases "ex = ey")
    case True
    then have u: "ulp x = ulp y" unfolding ux uy by simp
    have "x / ulp y \<le> y / ulp y" using assms(2) by (simp add: divide_right_mono)
    from round_even_mono [OF this]
    have "(of_int (round_even (x / ulp y)) :: real) \<le> of_int (round_even (y / ulp y))" by simp
    then show ?thesis unfolding fv_fl [OF fx] fv_fl [OF fy] u by (simp add: mult_right_mono)
  next
    case False
    with le have lt: "ex < ey" by simp
    then have eyv: "ey = expo y" unfolding ey_def ex_def by (simp add: max_def split: if_splits)
    have "(of_int (round_even (x / ulp x)) :: real) \<le> of_int (2 ^ 53)"
      using mantissa_bound [OF nz(1)] by (simp only: of_int_le_iff)
    then have "fv (fl x) \<le> of_int (2 ^ 53) * ulp x"
      unfolding fv_fl [OF fx] by (rule mult_right_mono) simp
    also have "\<dots> = pow2 53 * pow2 (ex - 52)" unfolding ux by (simp add: pow2_53)
    also have "\<dots> = pow2 (ex + 1)" by (rule pow2_split) simp
    also have "\<dots> \<le> pow2 ey" using lt by (intro pow2_mono) simp
    also have "\<dots> = pow2 52 * pow2 (ey - 52)" by (rule pow2_split [symmetric]) simp
    also have "\<dots> = of_int (2 ^ 52) * ulp y" unfolding uy by (simp add: pow2_52)
    also have "\<dots> \<le> of_int (round_even (y / ulp y)) * ulp y"
    proof (rule mult_right_mono)
      have "pow2 ey \<le> y" using expo_bounds(1) [OF nz(2)] assms unfolding eyv by simp
      then have "pow2 52 * pow2 (ey - 52) \<le> y" by (simp add: pow2_split)
      then have "of_int (2 ^ 52) \<le> y / ulp y" unfolding uy by (simp add: pos_le_divide_eq pow2_52)
      from round_even_ge [OF this]
      show "(of_int (2 ^ 52) :: real) \<le> of_int (round_even (y / ulp y))" by (simp only: of_int_le_iff)
    qed simp
    finally show ?thesis unfolding fv_fl [OF fy] .
  qed
qed

lemma ulp_neq0 [simp]: "ulp x \<noteq> 0"
  using ulp_pos [of x] by linarith

lemma fl_minus:
  assumes "x \<noteq> 0"
  shows "fl (- x) = js_neg (fl x)"
proof -
  have q: "- x / ulp x = - (x / ulp x)" by simp
  show ?thesis
    unfolding fl_unfold ulp_minus expo_minus q round_even_minus
    using assms by (auto simp: inf_signed_def zero_signed_def)
qed

lemma fv_js_neg [simp]: "fv (js_neg a) = - fv a"
  by (cases a) simp_all

lemma is_finite_js_neg [simp]: "is_finite (js_neg a) = is_finite a"
  by (cases a) simp_all

lemma fl_mono:
  assumes "x \<le> y" and fx: "is_finite (fl x)" and fy: "is_finite (fl y)"
  shows "fv (fl x) \<le> fv (fl y)"
proof -
  consider "0 < x" | "x \<le> 0" "0 \<le> y" | "y < 0" by linarith
  then show ?thesis
  proof cases
    case 1
    then show ?thesis by (rule fl_mono_pos [OF _ assms])
  next
    case 2
    with fv_fl_nonpos [of x] fv_fl_nonneg [of y] show ?thesis by linarith
  next
    case 3
    with assms(1) have nz: "x \<noteq> 0" "y \<noteq> 0" and p: "0 < - y" "- y \<le> - x" by simp_all
    have "fv (fl (- y)) \<le> fv (fl (- x))"
      using fx fy by (intro fl_mono_pos [OF p]) (simp_all add: fl_minus nz)
    then show ?thesis by (simp add: fl_minus nz)
  qed
qed

section \<open>Intersection over union\<close>

lemma not_js_lt_finite: "is_finite a \<Longrightarrow> is_finite b \<Longrightarrow> \<not> js_lt a b \<longleftrightarrow> fv b \<le> fv a"
  by (cases a; cases b) (auto simp: js_lt_def)

lemma Math_max_within:
  assumes "is_finite p" "is_finite q" "u \<noteq> NaN" "\<not> js_lt q u"
  shows "is_finite (Math_max p u) \<and> fv p \<le> fv (Math_max p u) \<and>
         (fv (Math_max p u) = fv p \<or> is_finite u \<and> fv (Math_max p u) = fv u)"
  using assms by (cases p; cases q; cases u) (auto simp: Math_max_def js_lt_def)

lemma Math_min_within:
  assumes "is_finite p" "is_finite q" "v \<noteq> NaN" "\<not> js_lt v p"
  shows "is_finite (Math_min q v) \<and> fv (Math_min q v) \<le> fv q \<and>
         (fv (Math_min q v) = fv q \<or> is_finite v \<and> fv (Math_min q v) = fv v)"
  using assms by (cases p; cases q; cases v) (auto simp: Math_min_def js_lt_def)

text \<open>
  The interval of an intersection, when the code does not reject it: it lies within the
  interval of the first box.
\<close>

lemma intersection_within:
  assumes fin: "is_finite p" "is_finite q" and nn: "u \<noteq> NaN" "v \<noteq> NaN"
    and no: "\<not> js_lt (Math_min q v) (Math_max p u)"
  shows "is_finite (Math_max p u)" and "is_finite (Math_min q v)"
    and "fv p \<le> fv (Math_max p u)" and "fv (Math_max p u) \<le> fv (Math_min q v)"
    and "fv (Math_min q v) \<le> fv q"
proof -
  from fin have pq: "p \<noteq> NaN" "q \<noteq> NaN" by auto
  from no have c: "\<not> js_lt q p" "\<not> js_lt q u" "\<not> js_lt v p" "\<not> js_lt v u"
    using pq nn by (simp_all add: js_lt_Math_min js_lt_Math_max)
  note mx = Math_max_within [OF fin nn(1) c(2)]
  note mn = Math_min_within [OF fin nn(2) c(3)]
  from mx show "is_finite (Math_max p u)" "fv p \<le> fv (Math_max p u)" by simp_all
  from mn show "is_finite (Math_min q v)" "fv (Math_min q v) \<le> fv q" by simp_all
  from c(1) fin have 1: "fv p \<le> fv q" by (simp add: not_js_lt_finite)
  have 2: "fv u \<le> fv q" if "is_finite u" using c(2) fin that by (simp add: not_js_lt_finite)
  have 3: "fv p \<le> fv v" if "is_finite v" using c(3) fin that by (simp add: not_js_lt_finite)
  have 4: "fv u \<le> fv v" if "is_finite u" "is_finite v" using c(4) that by (simp add: not_js_lt_finite)
  from mx mn 1 2 3 4 show "fv (Math_max p u) \<le> fv (Math_min q v)" by auto
qed

lemma js_sub_finite_eq:
  assumes "is_finite a" "is_finite b"
  shows "js_sub a b =
     (if fv a - fv b = 0 then zero_signed (sign_bit a \<and> sign_bit (js_neg b)) else fl (fv a - fv b))"
  using assms by (cases a; cases b) (simp_all add: js_sub_def js_add_def)

lemma js_sub_is_zero: "is_finite a \<Longrightarrow> is_finite b \<Longrightarrow> fv a = fv b \<Longrightarrow> is_zero (js_sub a b)"
  by (simp add: js_sub_finite_eq is_zero_def zero_signed_def)

lemma js_sub_finite_mono:
  assumes fin: "is_finite a" "is_finite b" "is_finite c" "is_finite d"
    and le: "\<bar>fv a - fv b\<bar> \<le> \<bar>fv c - fv d\<bar>" and res: "is_finite (js_sub c d)"
  shows "is_finite (js_sub a b)"
proof (cases "fv a - fv b = 0")
  case True
  then show ?thesis using fin by (simp add: js_sub_finite_eq zero_signed_def)
next
  case False
  with le have "fv c - fv d \<noteq> 0" by auto
  with res fin have "is_finite (fl (fv c - fv d))" by (simp add: js_sub_finite_eq)
  from fl_finite_mono [OF this le] False fin show ?thesis by (simp add: js_sub_finite_eq)
qed

lemma js_sub_operands_finite:
  assumes "is_finite (js_sub a b)"
  shows "is_finite a \<and> is_finite b"
  using assms by (cases a; cases b) (auto simp: js_sub_def js_add_def split: if_splits)

lemma js_sub_not_NaN: "js_sub a b \<noteq> NaN \<Longrightarrow> a \<noteq> NaN \<and> b \<noteq> NaN"
  by (cases a; cases b) (auto simp: js_sub_def js_add_def)

lemma js_mul_not_NaN: "js_mul a b \<noteq> NaN \<Longrightarrow> a \<noteq> NaN \<and> b \<noteq> NaN"
  by (auto simp: js_mul_def)

lemma js_mul_zero_left: "is_zero u \<Longrightarrow> is_finite v \<Longrightarrow> is_zero (js_mul u v)"
  by (cases v) (auto simp: js_mul_def is_zero_def zero_signed_def)

lemma js_mul_zero_left_weak: "is_zero u \<Longrightarrow> zero_or_nan (js_mul u v)"
  by (cases v) (auto simp: js_mul_def is_zero_def zero_signed_def zero_or_nan_def)

lemma js_mul_zero_factors:
  assumes "is_zero (js_mul u v)" and "is_zero u"
  shows "is_finite v"
  using assms by (cases v) (auto simp: js_mul_def is_zero_def inf_signed_def split: if_splits)

lemma js_mul_is_zero_finite:
  assumes "is_zero (js_mul u v)"
  shows "is_finite u \<and> is_finite v"
  using assms
  by (cases u; cases v) (auto simp: js_mul_def is_zero_def inf_signed_def zero_signed_def split: if_splits)

lemma js_mul_is_double: "is_double (js_mul a b)"
proof (cases "js_mul a b")
  case (Num v)
  show ?thesis
  proof (cases "v = 0")
    case True
    with Num show ?thesis by (simp add: is_double_def)
  next
    case False
    from js_mul_Num(1) [OF Num False] have "representable v" by (rule fl_representable)
    with Num show ?thesis by (simp add: is_double_def representable_fl)
  qed
qed (simp_all add: is_double_def)

lemma js_add_zero_left:
  assumes "is_zero z" "\<not> is_zero b" "b \<noteq> NaN" "is_double b"
  shows "js_add z b = b"
  using assms by (cases b) (auto simp: js_add_def is_zero_def is_double_def)

lemma js_sub_zero_right:
  assumes "is_zero z" "\<not> is_zero b" "b \<noteq> NaN" "is_double b"
  shows "js_sub b z = b"
  using assms by (cases b) (auto simp: js_sub_def js_add_def is_zero_def is_double_def)

lemma js_div_zero_left:
  assumes "is_zero z" "\<not> is_zero b" "b \<noteq> NaN"
  shows "is_zero (js_div z b)"
  using assms by (cases b) (auto simp: js_div_def is_zero_def zero_signed_def)

lemma zero_or_nan_add: "zero_or_nan a \<Longrightarrow> zero_or_nan b \<Longrightarrow> zero_or_nan (js_add a b)"
  unfolding zero_or_nan_def is_zero_def
  by (elim disjE; hypsubst; simp add: js_add_def zero_signed_def)

lemma zero_or_nan_sub: "zero_or_nan a \<Longrightarrow> zero_or_nan b \<Longrightarrow> zero_or_nan (js_sub a b)"
  unfolding zero_or_nan_def is_zero_def
  by (elim disjE; hypsubst; simp add: js_sub_def js_add_def zero_signed_def)

lemma zero_or_nan_div: "zero_or_nan a \<Longrightarrow> zero_or_nan b \<Longrightarrow> js_div a b = NaN"
  unfolding zero_or_nan_def is_zero_def
  by (elim disjE; hypsubst; simp add: js_div_def)

lemma calculateIoU_zero_width:
  assumes zw: "zero_width a" and za: "is_zero (box_area a)"
    and nz: "\<not> is_zero (box_area b)" and nn: "box_area b \<noteq> NaN"
  shows "is_zero (calculateIoU a b)"
proof (cases "separated a b")
  case True
  then show ?thesis by (simp add: calculateIoU_separated is_zero_def)
next
  case False
  define ix1 where "ix1 = Math_max (x1 a) (x1 b)"
  define ix2 where "ix2 = Math_min (x2 a) (x2 b)"
  define iy1 where "iy1 = Math_max (y1 a) (y1 b)"
  define iy2 where "iy2 = Math_min (y2 a) (y2 b)"
  from False have no: "\<not> js_lt ix2 ix1" "\<not> js_lt iy2 iy1"
    unfolding separated_def ix1_def ix2_def iy1_def iy2_def by simp_all
  from zw have fx: "is_finite (x1 a)" "is_finite (x2 a)" and ex: "fv (x1 a) = fv (x2 a)"
    unfolding zero_width_def by simp_all
  have w0: "is_zero (js_sub (x2 a) (x1 a))" using fx ex by (simp add: js_sub_is_zero)
  from za have "is_finite (js_sub (y2 a) (y1 a))"
    unfolding box_area_def by (rule js_mul_zero_factors [OF _ w0])
  then have ha: "is_finite (js_sub (y2 a) (y1 a))" and fy: "is_finite (y1 a)" "is_finite (y2 a)"
    using js_sub_operands_finite by blast+
  from nn have "js_sub (x2 b) (x1 b) \<noteq> NaN" "js_sub (y2 b) (y1 b) \<noteq> NaN"
    unfolding box_area_def using js_mul_not_NaN by blast+
  then have bn: "x1 b \<noteq> NaN" "x2 b \<noteq> NaN" "y1 b \<noteq> NaN" "y2 b \<noteq> NaN"
    using js_sub_not_NaN by blast+
  note X = intersection_within [OF fx bn(1,2) no(1) [unfolded ix1_def ix2_def], folded ix1_def ix2_def]
  note Y = intersection_within [OF fy bn(3,4) no(2) [unfolded iy1_def iy2_def], folded iy1_def iy2_def]
  have "fv ix2 = fv ix1" using X(3,4,5) ex by linarith
  then have wi: "is_zero (js_sub ix2 ix1)" using X(1,2) by (simp add: js_sub_is_zero)
  have "is_finite (js_sub iy2 iy1)"
    using Y by (intro js_sub_finite_mono [OF Y(2) Y(1) fy(2) fy(1) _ ha]) linarith
  then have inter: "is_zero (js_mul (js_sub ix2 ix1) (js_sub iy2 iy1))"
    by (rule js_mul_zero_left [OF wi])
  have dbl: "is_double (box_area b)" unfolding box_area_def by (rule js_mul_is_double)
  have u1: "js_add (box_area a) (box_area b) = box_area b"
    by (rule js_add_zero_left [OF za nz nn dbl])
  have u2: "js_sub (box_area b) (js_mul (js_sub ix2 ix1) (js_sub iy2 iy1)) = box_area b"
    by (rule js_sub_zero_right [OF inter nz nn dbl])
  have "calculateIoU a b = js_div (js_mul (js_sub ix2 ix1) (js_sub iy2 iy1)) (box_area b)"
    unfolding calculateIoU_def Let_def
    using no u1 u2 unfolding ix1_def ix2_def iy1_def iy2_def box_area_def by simp
  then show ?thesis using js_div_zero_left [OF inter nz nn] by simp
qed

lemma calculateIoU_both_zero_width:
  assumes zw: "zero_width a" and zb: "is_zero (box_area b)" and ns: "\<not> separated a b"
  shows "calculateIoU a b = NaN"
proof -
  define ix1 where "ix1 = Math_max (x1 a) (x1 b)"
  define ix2 where "ix2 = Math_min (x2 a) (x2 b)"
  define iy1 where "iy1 = Math_max (y1 a) (y1 b)"
  define iy2 where "iy2 = Math_min (y2 a) (y2 b)"
  from ns have no: "\<not> js_lt ix2 ix1" "\<not> js_lt iy2 iy1"
    unfolding separated_def ix1_def ix2_def iy1_def iy2_def by simp_all
  from zw have fx: "is_finite (x1 a)" "is_finite (x2 a)" and ex: "fv (x1 a) = fv (x2 a)"
    unfolding zero_width_def by simp_all
  have w0: "is_zero (js_sub (x2 a) (x1 a))" using fx ex by (simp add: js_sub_is_zero)
  from zb have "is_finite (js_sub (x2 b) (x1 b))"
    unfolding box_area_def using js_mul_is_zero_finite by blast
  then have "is_finite (x1 b)" "is_finite (x2 b)" using js_sub_operands_finite by blast+
  then have bn: "x1 b \<noteq> NaN" "x2 b \<noteq> NaN" by auto
  note X = intersection_within [OF fx bn no(1) [unfolded ix1_def ix2_def], folded ix1_def ix2_def]
  have "fv ix2 = fv ix1" using X(3,4,5) ex by linarith
  then have wi: "is_zero (js_sub ix2 ix1)" using X(1,2) by (simp add: js_sub_is_zero)
  have inter: "zero_or_nan (js_mul (js_sub ix2 ix1) (js_sub iy2 iy1))"
    by (rule js_mul_zero_left_weak [OF wi])
  have a1: "zero_or_nan (box_area a)" unfolding box_area_def by (rule js_mul_zero_left_weak [OF w0])
  have a2: "zero_or_nan (box_area b)" using zb by (simp add: zero_or_nan_def)
  have "calculateIoU a b =
      js_div (js_mul (js_sub ix2 ix1) (js_sub iy2 iy1))
        (js_sub (js_add (box_area a) (box_area b)) (js_mul (js_sub ix2 ix1) (js_sub iy2 iy1)))"
    unfolding calculateIoU_def Let_def
    using no unfolding ix1_def ix2_def iy1_def iy2_def box_area_def by simp
  also have "\<dots> = NaN"
    by (intro zero_or_nan_div zero_or_nan_sub zero_or_nan_add inter a1 a2)
  finally show ?thesis .
qed

lemma calculateIoU_flip: "calculateIoU (flip a) (flip b) = calculateIoU a b"
  unfolding calculateIoU_def flip_def Let_def
  by (simp add: disj_commute js_mul_commute)

lemma box_area_flip: "box_area (flip a) = box_area a"
  unfolding box_area_def flip_def by (simp add: js_mul_commute)

lemma separated_flip: "separated (flip a) (flip b) = separated a b"
  unfolding separated_def flip_def by (simp add: disj_commute)

lemma zero_width_flip: "zero_width (flip a) = zero_height a"
  unfolding zero_width_def zero_height_def flip_def by simp

lemma calculateIoU_zero_area:
  assumes "zero_width a \<or> zero_height a" and "is_zero (box_area a)"
    and "\<not> is_zero (box_area b)" and "box_area b \<noteq> NaN"
  shows "is_zero (calculateIoU a b)"
  using assms calculateIoU_zero_width [of a b] calculateIoU_zero_width [of "flip a" "flip b"]
  by (auto simp: calculateIoU_flip box_area_flip zero_width_flip)

lemma calculateIoU_both_zero:
  assumes "zero_width a \<or> zero_height a" and "is_zero (box_area b)" and "\<not> separated a b"
  shows "calculateIoU a b = NaN"
  using assms calculateIoU_both_zero_width [of a b] calculateIoU_both_zero_width [of "flip a" "flip b"]
  by (auto simp: calculateIoU_flip box_area_flip zero_width_flip separated_flip)

lemma calculateIoU_NaN_area:
  assumes "\<not> separated a b" and "box_area a = NaN \<or> box_area b = NaN"
  shows "calculateIoU a b = NaN"
  using assms unfolding calculateIoU_def separated_def box_area_def Let_def
  by (auto simp: js_add_def js_sub_def js_div_def)

lemma separated_commute: "separated a b = separated b a"
  by (simp add: separated_def Math_max_commute [of "x1 a"] Math_max_commute [of "y1 a"]
      Math_min_commute [of "x2 a"] Math_min_commute [of "y2 a"])

lemmas fl_eval = fl_def Let_def expo_def round_even_def pow2_def ilog2.simps

lemma pow2_1023: "pow2 1023 = 2 ^ 1023"
  by (simp add: pow2_def)

lemma fl_power2: "n < 1024 \<Longrightarrow> fl (2 ^ n) = Num (2 ^ n)"
proof -
  assume n: "n < 1024"
  have "pow2 (int n) < pow2 1024" using n by (intro pow2_strict_mono) simp
  then show ?thesis
    by (intro fl_exact [of _ 1 "int n"]) (simp_all add: pow2_nat)
qed

lemma well_formed_same:
  assumes "js_le (x1 a) (x2 a)" "js_le (y1 a) (y2 a)"
  shows "calculateIoU a a =
           js_div (box_area a) (js_sub (js_add (box_area a) (box_area a)) (box_area a))"
proof -
  from assms have "x1 a \<noteq> NaN" "x2 a \<noteq> NaN" "y1 a \<noteq> NaN" "y2 a \<noteq> NaN"
    "\<not> js_lt (x2 a) (x1 a)" "\<not> js_lt (y2 a) (y1 a)"
    by (auto simp: js_le_def)
  then show ?thesis
    unfolding calculateIoU_def Let_def box_area_def by (simp add: Math_max_same Math_min_same)
qed

lemma calculateIoU_same_large:
  assumes wf: "js_le (x1 a) (x2 a)" "js_le (y1 a) (y2 a)"
    and area: "box_area a = Num A" and big: "2 ^ 1023 \<le> A"
  shows "calculateIoU a a = Num 0"
proof -
  have "pow2 1024 \<le> \<bar>A + A\<bar>" using big pow2_Suc [of 1023] by (simp add: pow2_1023)
  from fl_overflow [OF this] big have "fl (A + A) = PosInf" by (simp add: inf_signed_def)
  moreover have "0 < A" using big by (rule less_le_trans [rotated]) simp
  ultimately show ?thesis
    unfolding well_formed_same [OF wf] area
    by (simp add: js_add_def js_sub_def js_div_def zero_signed_def)
qed

lemma calculateIoU_same_degenerate:
  assumes wf: "js_le (x1 a) (x2 a)" "js_le (y1 a) (y2 a)"
    and area: "is_zero (box_area a) \<or> box_area a = PosInf \<or> box_area a = NaN"
  shows "calculateIoU a a = NaN"
  using area unfolding well_formed_same [OF wf] is_zero_def
  by (elim disjE) (simp_all add: js_add_def js_sub_def js_div_def zero_signed_def)

text \<open>
  C1 (amended). \<open>calculateIoU\<close> is symmetric on all boxes. It returns 0 for two boxes
  that are disjoint on an axis whose four coordinates are numbers. For a well-formed box
  (\<open>x1 \<le> x2\<close>, \<open>y1 \<le> y2\<close>) compared with itself it returns 1 when the area of the box, as
  the code computes it in doubles, is a positive number below \<open>2 ^ 1023\<close>; it returns 0
  when that area is a number from \<open>2 ^ 1023\<close> on (the sum of the two areas is then
  infinite), and \<open>NaN\<close> when that area is 0, infinite or \<open>NaN\<close>. For a box \<open>z\<close>
  with \<open>x1 = x2\<close> or \<open>y1 = y2\<close> and any box \<open>d\<close> it returns 0 when its test finds
  the boxes apart; a zero (\<open>0\<close> or \<open>-0\<close>) when the computed area of \<open>z\<close> is 0 and the
  computed area of \<open>d\<close> is neither 0 nor \<open>NaN\<close>; and \<open>NaN\<close> when the test does not
  find the boxes apart and the computed area of \<open>z\<close> is \<open>NaN\<close> (its other side is
  infinite) or the computed area of \<open>d\<close> is 0 or \<open>NaN\<close>.
\<close>

theorem calculateIoU_contract:
  "calculateIoU a b = calculateIoU b a \<and>
   ((js_lt (x2 a1) (x1 b1) \<or> js_lt (x2 b1) (x1 a1)) \<and>
      x1 a1 \<noteq> NaN \<and> x2 a1 \<noteq> NaN \<and> x1 b1 \<noteq> NaN \<and> x2 b1 \<noteq> NaN \<longrightarrow>
    calculateIoU a1 b1 = Num 0) \<and>
   ((js_lt (y2 a2) (y1 b2) \<or> js_lt (y2 b2) (y1 a2)) \<and>
      y1 a2 \<noteq> NaN \<and> y2 a2 \<noteq> NaN \<and> y1 b2 \<noteq> NaN \<and> y2 b2 \<noteq> NaN \<longrightarrow>
    calculateIoU a2 b2 = Num 0) \<and>
   (js_le (x1 c) (x2 c) \<and> js_le (y1 c) (y2 c) \<longrightarrow>
      (box_area c = Num A \<and> 0 < A \<and> A < 2 ^ 1023 \<longrightarrow> calculateIoU c c = Num 1) \<and>
      (box_area c = Num A \<and> 2 ^ 1023 \<le> A \<longrightarrow> calculateIoU c c = Num 0) \<and>
      (is_zero (box_area c) \<or> box_area c = PosInf \<or> box_area c = NaN \<longrightarrow>
         calculateIoU c c = NaN)) \<and>
   (zero_width z \<or> zero_height z \<longrightarrow>
      (separated z d \<longrightarrow> calculateIoU z d = Num 0 \<and> calculateIoU d z = Num 0) \<and>
      (is_zero (box_area z) \<and> \<not> zero_or_nan (box_area d) \<longrightarrow>
         is_zero (calculateIoU z d) \<and> is_zero (calculateIoU d z)) \<and>
      (\<not> separated z d \<and> (box_area z = NaN \<or> zero_or_nan (box_area d)) \<longrightarrow>
         calculateIoU z d = NaN \<and> calculateIoU d z = NaN))"
proof (intro conjI impI)
  show "calculateIoU a b = calculateIoU b a" by (rule calculateIoU_commute)
next
  assume "(js_lt (x2 a1) (x1 b1) \<or> js_lt (x2 b1) (x1 a1)) \<and>
      x1 a1 \<noteq> NaN \<and> x2 a1 \<noteq> NaN \<and> x1 b1 \<noteq> NaN \<and> x2 b1 \<noteq> NaN"
  then show "calculateIoU a1 b1 = Num 0" by (intro calculateIoU_disjoint_x) simp_all
next
  assume "(js_lt (y2 a2) (y1 b2) \<or> js_lt (y2 b2) (y1 a2)) \<and>
      y1 a2 \<noteq> NaN \<and> y2 a2 \<noteq> NaN \<and> y1 b2 \<noteq> NaN \<and> y2 b2 \<noteq> NaN"
  then show "calculateIoU a2 b2 = Num 0" by (intro calculateIoU_disjoint_y) simp_all
next
  assume "js_le (x1 c) (x2 c) \<and> js_le (y1 c) (y2 c)" "box_area c = Num A \<and> 0 < A \<and> A < 2 ^ 1023"
  then show "calculateIoU c c = Num 1"
    by (intro calculateIoU_same [of c A]) (simp_all add: pow2_1023)
next
  assume "js_le (x1 c) (x2 c) \<and> js_le (y1 c) (y2 c)" "box_area c = Num A \<and> 2 ^ 1023 \<le> A"
  then show "calculateIoU c c = Num 0" by (intro calculateIoU_same_large [of c A]) simp_all
next
  assume "js_le (x1 c) (x2 c) \<and> js_le (y1 c) (y2 c)"
    "is_zero (box_area c) \<or> box_area c = PosInf \<or> box_area c = NaN"
  then show "calculateIoU c c = NaN" by (intro calculateIoU_same_degenerate) simp_all
next
  assume "separated z d"
  then show "calculateIoU z d = Num 0" by (rule calculateIoU_separated)
  then show "calculateIoU d z = Num 0" by (simp add: calculateIoU_commute [of d z])
next
  assume "zero_width z \<or> zero_height z" "is_zero (box_area z) \<and> \<not> zero_or_nan (box_area d)"
  then show "is_zero (calculateIoU z d)"
    by (intro calculateIoU_zero_area) (simp_all add: zero_or_nan_def)
  then show "is_zero (calculateIoU d z)" by (simp add: calculateIoU_commute [of d z])
next
  assume zw: "zero_width z \<or> zero_height z"
    and h: "\<not> separated z d \<and> (box_area z = NaN \<or> zero_or_nan (box_area d))"
  show "calculateIoU z d = NaN"
  proof (cases "is_zero (box_area d)")
    case True
    with zw h show ?thesis by (intro calculateIoU_both_zero) simp_all
  next
    case False
    with h show ?thesis by (intro calculateIoU_NaN_area) (auto simp: zero_or_nan_def)
  qed
  then show "calculateIoU d z = NaN" by (simp add: calculateIoU_commute [of d z])
qed

lemma box_area_fbox:
  "box_area (fbox a b c d) = js_mul (js_sub (Num c) (Num a)) (js_sub (Num d) (Num b))"
  by (simp add: box_area_def fbox_def)

lemma fbox_sel [simp]:
  "x1 (fbox a b c d) = Num a" "y1 (fbox a b c d) = Num b"
  "x2 (fbox a b c d) = Num c" "y2 (fbox a b c d) = Num d"
  by (simp_all add: fbox_def)

lemma fl_inverse_power2: "n \<le> 1074 \<Longrightarrow> fl (1 / 2 ^ n) = Num (1 / 2 ^ n)"
proof -
  assume n: "n \<le> 1074"
  have "pow2 (- int n) < pow2 1024" by (intro pow2_strict_mono) simp
  moreover have "pow2 (- int n) = 1 / 2 ^ n" by (simp add: pow2_def)
  ultimately show ?thesis
    using n by (intro fl_exact [of _ 1 "- int n"]) simp_all
qed

lemma fl_small_ints: "fl 4 = Num 4" "fl 10 = Num 10" "fl 100 = Num 100"
  by (simp_all add: fl_eval)

lemma js_le_Num [simp]: "js_le (Num a) (Num b) \<longleftrightarrow> a \<le> b"
  by (auto simp: js_le_def js_lt_def)

lemma same_zero_area: "calculateIoU (fbox 5 5 5 5) (fbox 5 5 5 5) = NaN"
  by (simp add: calculateIoU_def Let_def num_defs)

lemma two_zero_areas: "calculateIoU (fbox 5 5 5 5) (fbox 5 5 5 9) = NaN"
  by (simp add: calculateIoU_def Let_def num_defs fl_small_ints)

lemma same_large_area:
  "calculateIoU (fbox 0 0 (2 ^ 512) (2 ^ 511)) (fbox 0 0 (2 ^ 512) (2 ^ 511)) = Num 0"
proof (rule calculateIoU_same_large)
  show "box_area (fbox 0 0 (2 ^ 512) (2 ^ 511)) = Num (2 ^ 1023)"
    by (simp add: box_area_fbox num_defs fl_power2 [of 512, simplified]
        fl_power2 [of 511, simplified] fl_power2 [of 1023, simplified])
qed simp_all

lemma same_infinite_area:
  "calculateIoU (fbox 0 0 (2 ^ 512) (2 ^ 512)) (fbox 0 0 (2 ^ 512) (2 ^ 512)) = NaN"
proof (rule calculateIoU_same_degenerate)
  have "fl (2 ^ 1024) = PosInf"
    using fl_overflow [of "2 ^ 1024"] by (simp add: pow2_def inf_signed_def)
  then have "box_area (fbox 0 0 (2 ^ 512) (2 ^ 512)) = PosInf"
    by (simp add: box_area_fbox num_defs fl_power2 [of 512, simplified])
  then show "is_zero (box_area (fbox 0 0 (2 ^ 512) (2 ^ 512))) \<or>
      box_area (fbox 0 0 (2 ^ 512) (2 ^ 512)) = PosInf \<or>
      box_area (fbox 0 0 (2 ^ 512) (2 ^ 512)) = NaN" by simp
qed simp_all

lemma same_vanishing_area:
  "calculateIoU (fbox 0 0 (1 / 2 ^ 600) (1 / 2 ^ 600)) (fbox 0 0 (1 / 2 ^ 600) (1 / 2 ^ 600)) = NaN"
proof (rule calculateIoU_same_degenerate)
  have "fl (1 / 2 ^ 1200) = Num 0"
    using fl_underflow [of "1 / 2 ^ 1200"] by (simp add: pow2_def zero_signed_def)
  then have "box_area (fbox 0 0 (1 / 2 ^ 600) (1 / 2 ^ 600)) = Num 0"
    by (simp add: box_area_fbox num_defs fl_inverse_power2 [of 600, simplified])
  then show "is_zero (box_area (fbox 0 0 (1 / 2 ^ 600) (1 / 2 ^ 600))) \<or>
      box_area (fbox 0 0 (1 / 2 ^ 600) (1 / 2 ^ 600)) = PosInf \<or>
      box_area (fbox 0 0 (1 / 2 ^ 600) (1 / 2 ^ 600)) = NaN" by (simp add: is_zero_def)
qed simp_all

lemma zero_area_infinite_side:
  "calculateIoU (fbox 5 (- (2 ^ 1023)) 5 (2 ^ 1023)) (fbox 0 0 10 10) = NaN"
proof -
  have "fl (2 ^ 1024) = PosInf"
    using fl_overflow [of "2 ^ 1024"] by (simp add: pow2_def inf_signed_def)
  then show ?thesis
    by (simp add: calculateIoU_def Let_def num_defs fl_small_ints)
qed

lemma same_infinite_coordinate:
  "calculateIoU \<lparr>x1 = Num 0, y1 = Num 0, x2 = PosInf, y2 = Num 1\<rparr>
     \<lparr>x1 = Num 0, y1 = Num 0, x2 = PosInf, y2 = Num 1\<rparr> = NaN"
  by (simp add: calculateIoU_def Let_def num_defs)

lemma disjoint_NaN_coordinate:
  "calculateIoU (fbox 0 0 1 1) \<lparr>x1 = Num 5, y1 = Num 0, x2 = NaN, y2 = Num 1\<rparr> = NaN"
  by (simp add: calculateIoU_def Let_def num_defs)

lemma large_box_area: "box_area (fbox 0 0 (2 ^ 512) (2 ^ 511)) = Num (2 ^ 1023)"
  by (simp add: box_area_fbox num_defs fl_power2 [of 512, simplified]
      fl_power2 [of 511, simplified] fl_power2 [of 1023, simplified])

lemma infinite_box_area: "box_area (fbox 0 0 (2 ^ 512) (2 ^ 512)) = PosInf"
proof -
  have "fl (2 ^ 1024) = PosInf"
    using fl_overflow [of "2 ^ 1024"] by (simp add: pow2_def inf_signed_def)
  then show ?thesis
    by (simp add: box_area_fbox num_defs fl_power2 [of 512, simplified])
qed

lemma segment_box_area: "box_area (fbox 5 (- (2 ^ 1023)) 5 (2 ^ 1023)) = NaN"
proof -
  have "fl (2 ^ 1024) = PosInf"
    using fl_overflow [of "2 ^ 1024"] by (simp add: pow2_def inf_signed_def)
  then show ?thesis by (simp add: box_area_fbox num_defs)
qed

lemma segment_not_separated:
  "\<not> separated (fbox 5 (- (2 ^ 1023)) 5 (2 ^ 1023)) (fbox 0 0 10 10)"
  by (simp add: separated_def num_defs)

text \<open>
  The contract at concrete boxes: two overlapping 10 by 10 boxes, a 10 by 10 box against
  a box to its right, against a box below it and against itself, a vertical segment
  inside it and one beside it, and two segments that touch; then a box of area
  \<open>2 ^ 1023\<close> and one of infinite area against themselves, and a segment from
  \<open>- (2 ^ 1023)\<close> to \<open>2 ^ 1023\<close> across a 10 by 10 box.
\<close>

theorem calculateIoU_contract_witness:
  "calculateIoU (fbox 0 0 10 10) (fbox 5 5 15 15) = calculateIoU (fbox 5 5 15 15) (fbox 0 0 10 10) \<and>
   calculateIoU (fbox 0 0 10 10) (fbox 20 0 30 10) = Num 0 \<and>
   calculateIoU (fbox 0 0 10 10) (fbox 0 20 10 30) = Num 0 \<and>
   calculateIoU (fbox 0 0 10 10) (fbox 0 0 10 10) = Num 1 \<and>
   is_zero (calculateIoU (fbox 5 0 5 10) (fbox 0 0 10 10)) \<and>
   is_zero (calculateIoU (fbox 0 0 10 10) (fbox 5 0 5 10)) \<and>
   calculateIoU (fbox 50 0 50 10) (fbox 0 0 10 10) = Num 0 \<and>
   calculateIoU (fbox 5 5 5 5) (fbox 5 5 5 9) = NaN \<and>
   calculateIoU (fbox 5 5 5 9) (fbox 5 5 5 5) = NaN \<and>
   calculateIoU (fbox 0 0 (2 ^ 512) (2 ^ 511)) (fbox 0 0 (2 ^ 512) (2 ^ 511)) = Num 0 \<and>
   calculateIoU (fbox 0 0 (2 ^ 512) (2 ^ 512)) (fbox 0 0 (2 ^ 512) (2 ^ 512)) = NaN \<and>
   calculateIoU (fbox 5 (- (2 ^ 1023)) 5 (2 ^ 1023)) (fbox 0 0 10 10) = NaN \<and>
   calculateIoU (fbox 0 0 10 10) (fbox 5 (- (2 ^ 1023)) 5 (2 ^ 1023)) = NaN"
proof -
  have small:
    "calculateIoU (fbox 0 0 10 10) (fbox 5 5 15 15) = calculateIoU (fbox 5 5 15 15) (fbox 0 0 10 10) \<and>
     calculateIoU (fbox 0 0 10 10) (fbox 20 0 30 10) = Num 0 \<and>
     calculateIoU (fbox 0 0 10 10) (fbox 0 20 10 30) = Num 0 \<and>
     calculateIoU (fbox 0 0 10 10) (fbox 0 0 10 10) = Num 1 \<and>
     is_zero (calculateIoU (fbox 5 0 5 10) (fbox 0 0 10 10)) \<and>
     is_zero (calculateIoU (fbox 0 0 10 10) (fbox 5 0 5 10)) \<and>
     calculateIoU (fbox 50 0 50 10) (fbox 0 0 10 10) = Num 0 \<and>
     calculateIoU (fbox 5 5 5 5) (fbox 5 5 5 9) = NaN \<and>
     calculateIoU (fbox 5 5 5 9) (fbox 5 5 5 5) = NaN"
    using calculateIoU_contract [where a = "fbox 0 0 10 10" and b = "fbox 5 5 15 15"
        and ?a1.0 = "fbox 0 0 10 10" and ?b1.0 = "fbox 20 0 30 10"
        and ?a2.0 = "fbox 0 0 10 10" and ?b2.0 = "fbox 0 20 10 30"
        and c = "fbox 0 0 10 10" and A = 100
        and z = "fbox 5 0 5 10" and d = "fbox 0 0 10 10"]
      calculateIoU_contract [where z = "fbox 50 0 50 10" and d = "fbox 0 0 10 10"]
      calculateIoU_contract [where z = "fbox 5 5 5 5" and d = "fbox 5 5 5 9"]
    by (simp add: box_area_fbox zero_width_def separated_def zero_or_nan_def num_defs fl_eval)
  have large:
    "calculateIoU (fbox 0 0 (2 ^ 512) (2 ^ 511)) (fbox 0 0 (2 ^ 512) (2 ^ 511)) = Num 0"
  proof -
    have wf: "js_le (x1 (fbox 0 0 (2 ^ 512) (2 ^ 511))) (x2 (fbox 0 0 (2 ^ 512) (2 ^ 511))) \<and>
        js_le (y1 (fbox 0 0 (2 ^ 512) (2 ^ 511))) (y2 (fbox 0 0 (2 ^ 512) (2 ^ 511)))"
      unfolding fbox_sel js_le_Num by (intro conjI zero_le_power) simp_all
    have le: "(2 :: real) ^ 1023 \<le> 2 ^ 1023" by (rule order_refl)
    from calculateIoU_contract [where c = "fbox 0 0 (2 ^ 512) (2 ^ 511)" and A = "2 ^ 1023",
        THEN conjunct2, THEN conjunct2, THEN conjunct2, THEN conjunct1]
      wf large_box_area le
    show ?thesis by blast
  qed
  have infinite:
    "calculateIoU (fbox 0 0 (2 ^ 512) (2 ^ 512)) (fbox 0 0 (2 ^ 512) (2 ^ 512)) = NaN"
  proof -
    have wf: "js_le (x1 (fbox 0 0 (2 ^ 512) (2 ^ 512))) (x2 (fbox 0 0 (2 ^ 512) (2 ^ 512))) \<and>
        js_le (y1 (fbox 0 0 (2 ^ 512) (2 ^ 512))) (y2 (fbox 0 0 (2 ^ 512) (2 ^ 512)))"
      unfolding fbox_sel js_le_Num by (intro conjI zero_le_power) simp_all
    from calculateIoU_contract [where c = "fbox 0 0 (2 ^ 512) (2 ^ 512)",
        THEN conjunct2, THEN conjunct2, THEN conjunct2, THEN conjunct1]
      wf infinite_box_area
    show ?thesis by blast
  qed
  have segment:
    "calculateIoU (fbox 5 (- (2 ^ 1023)) 5 (2 ^ 1023)) (fbox 0 0 10 10) = NaN \<and>
     calculateIoU (fbox 0 0 10 10) (fbox 5 (- (2 ^ 1023)) 5 (2 ^ 1023)) = NaN"
  proof -
    have zw: "zero_width (fbox 5 (- (2 ^ 1023)) 5 (2 ^ 1023))"
      unfolding zero_width_def fbox_sel by simp
    from calculateIoU_contract [where z = "fbox 5 (- (2 ^ 1023)) 5 (2 ^ 1023)"
        and d = "fbox 0 0 10 10",
        THEN conjunct2, THEN conjunct2, THEN conjunct2, THEN conjunct2]
      zw segment_box_area segment_not_separated
    show ?thesis by blast
  qed
  from small large infinite segment show ?thesis by blast
qed

text \<open>
  C1 as stated fails. A well-formed box of zero area compared with itself should give 1
  (identical) and 0 (zero area), and so should two zero-area boxes that touch give 0, but
  the code divides 0 by 0. A well-formed box of area \<open>2 ^ 1023\<close> compared with itself
  gives 0, since the sum of the two areas is infinite; identical boxes whose area
  overflows or underflows, or with an infinite coordinate, give \<open>NaN\<close>. A zero-area box
  whose other side overflows gives \<open>NaN\<close> against a box of area 100. And a box to the
  right of another gives \<open>NaN\<close> when its right edge is \<open>NaN\<close>.
\<close>

theorem calculateIoU_contract_counterexample:
  "calculateIoU (fbox 5 5 5 5) (fbox 5 5 5 5) = NaN \<and>
   calculateIoU (fbox 5 5 5 5) (fbox 5 5 5 9) = NaN \<and>
   calculateIoU (fbox 0 0 (2 ^ 512) (2 ^ 511)) (fbox 0 0 (2 ^ 512) (2 ^ 511)) = Num 0 \<and>
   calculateIoU (fbox 0 0 (2 ^ 512) (2 ^ 512)) (fbox 0 0 (2 ^ 512) (2 ^ 512)) = NaN \<and>
   calculateIoU (fbox 0 0 (1 / 2 ^ 600) (1 / 2 ^ 600)) (fbox 0 0 (1 / 2 ^ 600) (1 / 2 ^ 600)) = NaN \<and>
   calculateIoU (fbox 5 (- (2 ^ 1023)) 5 (2 ^ 1023)) (fbox 0 0 10 10) = NaN \<and>
   calculateIoU \<lparr>x1 = Num 0, y1 = Num 0, x2 = PosInf, y2 = Num 1\<rparr>
     \<lparr>x1 = Num 0, y1 = Num 0, x2 = PosInf, y2 = Num 1\<rparr> = NaN \<and>
   calculateIoU (fbox 0 0 1 1) \<lparr>x1 = Num 5, y1 = Num 0, x2 = NaN, y2 = Num 1\<rparr> = NaN"
  by (intro conjI same_zero_area two_zero_areas same_large_area same_infinite_area
      same_vanishing_area zero_area_infinite_side same_infinite_coordinate
      disjoint_NaN_coordinate)

section \<open>Normalized and pixel coordinates\<close>

lemma Math_round_finite:
  assumes "is_finite a"
  shows "is_finite (Math_round a)" and "fv (Math_round a) = of_int \<lfloor>fv a + 1 / 2\<rfloor>"
proof -
  have "is_finite (Math_round a) \<and> fv (Math_round a) = of_int \<lfloor>fv a + 1 / 2\<rfloor>"
  proof (cases a)
    case (Num v)
    have "\<lfloor>v + 1 / 2\<rfloor> = 0" if "- (1 / 2) \<le> v" "v < 0"
      using that by (intro floor_unique) simp_all
    then show ?thesis using Num by simp
  qed (use assms in simp_all)
  then show "is_finite (Math_round a)" and "fv (Math_round a) = of_int \<lfloor>fv a + 1 / 2\<rfloor>"
    by simp_all
qed

lemma js_div_cases:
  assumes "is_finite a" "is_finite b" "fv b \<noteq> 0"
  shows "js_div a b = fl (fv a / fv b) \<or> fv a / fv b = 0 \<and> is_zero (js_div a b)"
  using assms by (auto simp: js_div_def is_zero_def zero_signed_def)

lemma js_mul_cases:
  assumes "is_finite a" "is_finite b"
  shows "js_mul a b = fl (fv a * fv b) \<or> fv a * fv b = 0 \<and> is_zero (js_mul a b)"
  using assms by (auto simp: js_mul_def is_zero_def zero_signed_def)

text \<open>
  The result of an operation whose exact value \<open>x\<close> lies between 0 and a double \<open>K\<close>:
  it lies between 0 and \<open>K\<close> too, within the rounding error of \<open>x\<close>.
\<close>

lemma rounded_bounds:
  assumes r: "r = fl x \<or> x = 0 \<and> is_zero r" and lo: "0 \<le> x" and hi: "x \<le> K"
    and K: "fl K = Num K"
  shows "is_finite r" and "0 \<le> fv r" and "fv r \<le> K"
    and "\<bar>fv r - x\<bar> \<le> x / 2 ^ 53 + pow2 (- 1075)"
proof -
  have "is_finite r \<and> 0 \<le> fv r \<and> fv r \<le> K \<and> \<bar>fv r - x\<bar> \<le> x / 2 ^ 53 + pow2 (- 1075)"
  proof (cases "r = fl x")
    case True
    have fK: "is_finite (fl K)" by (simp add: K)
    have fin: "is_finite (fl x)" using lo hi by (intro fl_finite_mono [OF fK]) simp
    have "fv (fl x) \<le> fv (fl K)" by (rule fl_mono [OF hi fin fK])
    moreover have "\<bar>fv (fl x) - x\<bar> \<le> \<bar>x\<bar> * pow2 (- 53) + pow2 (- 1075)"
      by (rule fl_error_bound [OF fin])
    moreover have "pow2 (- 53) = 1 / 2 ^ 53" by (simp add: pow2_def)
    ultimately show ?thesis
      unfolding True using fin fv_fl_nonneg [OF lo] lo by (simp add: K)
  next
    case False
    with r have "x = 0" "is_zero r" by simp_all
    then show ?thesis using lo hi by (auto simp: is_zero_def less_imp_le)
  qed
  then show "is_finite r" and "0 \<le> fv r" and "fv r \<le> K"
    and "\<bar>fv r - x\<bar> \<le> x / 2 ^ 53 + pow2 (- 1075)" by simp_all
qed

lemma power2_values: "(2::real) ^ 53 = 9007199254740992" "(2::real) ^ 55 = 36028797018963968"
  "(2::real) ^ 50 = 1125899906842624"
  by simp_all

lemma fl_1000: "fl 1000 = Num 1000"
  by (simp add: fl_eval)

lemma tiny_unit: "0 < pow2 (- 1075)" "pow2 (- 1075) \<le> 1 / 2 ^ 55"
proof -
  show "0 < pow2 (- 1075)" by simp
  have "pow2 (- 1075) \<le> pow2 (- 55)" by (intro pow2_mono) simp
  also have "\<dots> = 1 / 2 ^ 55" by (simp add: pow2_def)
  finally show "pow2 (- 1075) \<le> 1 / 2 ^ 55" .
qed

text \<open>
  The round trip, step by step: \<open>N\<close> is the normalized coordinate and \<open>R\<close> the pixel
  that comes back, \<open>s\<close> the number rounded to \<open>R\<close>; \<open>u\<close> is the unit of the rounding
  errors of the four operations.
\<close>

lemma round_trip_steps:
  assumes fp: "is_finite p" and fd: "is_finite d" and dd: "is_double d"
    and P0: "0 \<le> fv p" and PD: "fv p \<le> fv d" and D0: "0 < fv d"
  shows "\<exists>N R s. is_finite (normalizedToPixel (pixelToNormalized p d) d) \<and>
           fv (normalizedToPixel (pixelToNormalized p d) d) = of_int R \<and>
           R = \<lfloor>s + 1 / 2\<rfloor> \<and> 0 \<le> s \<and> s \<le> fv d \<and> 0 \<le> N \<and> N \<le> 1000 \<and>
           \<bar>of_int N - 1000 * (fv p / fv d)\<bar> \<le> 1 / 2 + 3001 / 2 ^ 53 \<and>
           \<bar>s - of_int N * fv d / 1000\<bar> \<le> 3 * fv d / 2 ^ 53 + pow2 (- 1075)"
proof -
  define P where "P = fv p"
  define D where "D = fv d"
  define e where "e = pow2 (- 1075)"
  define X where "X = P / D"
  note e = tiny_unit [folded e_def]
  from D0 fd dd have dK: "fl D = Num D"
    unfolding D_def by (cases d) (simp_all add: is_double_def)
  have X: "0 \<le> X" "X \<le> 1" and XD: "X * D = P"
    using P0 PD D0 unfolding X_def P_def D_def by simp_all
  define q1 where "q1 = js_div p d"
  have c1: "q1 = fl X \<or> X = 0 \<and> is_zero q1"
    unfolding q1_def X_def P_def D_def using D0 by (intro js_div_cases fp fd) simp
  note b1 = rounded_bounds [OF c1 X fl_one, folded e_def]
  define q2 where "q2 = js_mul q1 (Num 1000)"
  have c2: "q2 = fl (fv q1 * 1000) \<or> fv q1 * 1000 = 0 \<and> is_zero q2"
    unfolding q2_def using js_mul_cases [OF b1(1), of "Num 1000"] by simp
  have "0 \<le> fv q1 * 1000" "fv q1 * 1000 \<le> 1000" using b1(2,3) by simp_all
  note b2 = rounded_bounds [OF c2 this fl_1000, folded e_def]
  define N where "N = \<lfloor>fv q2 + 1 / 2\<rfloor>"
  have n: "is_finite (Math_round q2)" "fv (Math_round q2) = of_int N"
    unfolding N_def by (rule Math_round_finite [OF b2(1)])+
  have N0: "0 \<le> N" unfolding N_def using b2(2) by simp
  have "fv q2 + 1 / 2 < 1001" using b2(3) by simp
  then have "N < 1001" unfolding N_def by (simp add: floor_less_iff)
  then have N1: "N \<le> 1000" by simp
  have Nr: "\<bar>of_int N - fv q2\<bar> \<le> 1 / 2" unfolding N_def by linarith
  have E1: "\<bar>of_int N - 1000 * X\<bar> \<le> 1 / 2 + 3001 / 2 ^ 53"
    using Nr b1(3,4) b2(4) X e by (unfold power2_values) linarith
  define q3 where "q3 = js_div (Math_round q2) (Num 1000)"
  have c3: "q3 = fl (of_int N / 1000) \<or> (of_int N :: real) / 1000 = 0 \<and> is_zero q3"
    unfolding q3_def using js_div_cases [OF n(1), of "Num 1000"] by (simp add: n(2))
  have "0 \<le> (of_int N :: real) / 1000" "(of_int N :: real) / 1000 \<le> 1" using N0 N1 by simp_all
  note b3 = rounded_bounds [OF c3 this fl_one, folded e_def]
  define q4 where "q4 = js_mul q3 d"
  have c4: "q4 = fl (fv q3 * D) \<or> fv q3 * D = 0 \<and> is_zero q4"
    unfolding q4_def D_def by (rule js_mul_cases [OF b3(1) fd])
  have x4: "0 \<le> fv q3 * D" "fv q3 * D \<le> D"
    using b3(2,3) D0 unfolding D_def by (simp_all add: mult_left_le_one_le)
  note b4 = rounded_bounds [OF c4 x4 dK, folded e_def]
  define R where "R = \<lfloor>fv q4 + 1 / 2\<rfloor>"
  have r: "is_finite (Math_round q4)" "fv (Math_round q4) = of_int R"
    unfolding R_def by (rule Math_round_finite [OF b4(1)])+
  have res: "normalizedToPixel (pixelToNormalized p d) d = Math_round q4"
    unfolding normalizedToPixel_def pixelToNormalized_def q4_def q3_def q2_def q1_def ..
  have "\<bar>fv q3 - of_int N / 1000\<bar> \<le> 2 / 2 ^ 53"
  proof -
    have "(of_int N :: real) / 1000 / 2 ^ 53 \<le> 1 / 2 ^ 53" using N1 by simp
    with b3(4) e show ?thesis by (unfold power2_values) linarith
  qed
  then have "\<bar>fv q3 - of_int N / 1000\<bar> * D \<le> 2 / 2 ^ 53 * D"
    using D0 unfolding D_def by (intro mult_right_mono) simp_all
  moreover have "\<bar>fv q3 - of_int N / 1000\<bar> * D = \<bar>fv q3 * D - of_int N * D / 1000\<bar>"
  proof -
    have "\<bar>fv q3 - of_int N / 1000\<bar> * D = \<bar>(fv q3 - of_int N / 1000) * D\<bar>"
      using D0 unfolding D_def by (simp add: abs_mult)
    then show ?thesis by (simp add: left_diff_distrib)
  qed
  ultimately have "\<bar>fv q3 * D - of_int N * D / 1000\<bar> \<le> 2 * D / 2 ^ 53" by simp
  moreover have "\<bar>fv q4 - fv q3 * D\<bar> \<le> D / 2 ^ 53 + e"
  proof -
    have "fv q3 * D / 2 ^ 53 \<le> D / 2 ^ 53" using x4(2) by (simp add: divide_right_mono)
    with b4(4) show ?thesis by (unfold power2_values) linarith
  qed
  ultimately have E2: "\<bar>fv q4 - of_int N * D / 1000\<bar> \<le> 3 * D / 2 ^ 53 + e"
    by (unfold power2_values) linarith
  show ?thesis
    unfolding res
    using r R_def b4(2,3) N0 N1 E1 E2
    unfolding X_def P_def D_def e_def by blast
qed

text \<open>
  C3 (amended). For every dimension \<open>d > 0\<close> and every pixel value \<open>p\<close> with
  \<open>0 \<le> p \<le> d\<close> the round trip through the normalized scale is a number within
  \<open>1/2 + d/2000 + d/2^50\<close> of \<open>p\<close>, the last term covering the rounding of the four
  operations on doubles; it is within 1 of \<open>p\<close> when \<open>d \<le> 1000\<close>, and also when \<open>p\<close>
  is a whole number and \<open>d \<le> 2999\<close>.
\<close>

theorem round_trip_bound:
  assumes "is_finite p" and "is_finite d" and "is_double d"
    and "0 \<le> fv p" and "fv p \<le> fv d" and "0 < fv d"
  shows "is_finite (normalizedToPixel (pixelToNormalized p d) d) \<and>
         \<bar>fv (normalizedToPixel (pixelToNormalized p d) d) - fv p\<bar>
           \<le> 1 / 2 + fv d / 2000 + fv d / 2 ^ 50 \<and>
         (fv d \<le> 1000 \<longrightarrow> \<bar>fv (normalizedToPixel (pixelToNormalized p d) d) - fv p\<bar> \<le> 1) \<and>
         (fv p \<in> \<int> \<and> fv d \<le> 2999 \<longrightarrow>
            \<bar>fv (normalizedToPixel (pixelToNormalized p d) d) - fv p\<bar> \<le> 1)"
proof -
  define P where "P = fv p"
  define D where "D = fv d"
  define e where "e = pow2 (- 1075)"
  define X where "X = P / D"
  note e = tiny_unit [folded e_def]
  from round_trip_steps [OF assms] obtain N R s where
    fin: "is_finite (normalizedToPixel (pixelToNormalized p d) d)"
    and val: "fv (normalizedToPixel (pixelToNormalized p d) d) = of_int R"
    and R: "R = \<lfloor>s + 1 / 2\<rfloor>" and s: "0 \<le> s" "s \<le> D" and N: "0 \<le> N" "N \<le> 1000"
    and E1: "\<bar>of_int N - 1000 * X\<bar> \<le> 1 / 2 + 3001 / 2 ^ 53"
    and E2: "\<bar>s - of_int N * D / 1000\<bar> \<le> 3 * D / 2 ^ 53 + e"
    unfolding P_def D_def e_def X_def by blast
  have D0: "0 < D" and P0: "0 \<le> P" and PD: "P \<le> D"
    using assms unfolding P_def D_def by simp_all
  have X: "0 \<le> X" "X \<le> 1" and XD: "X * D = P"
    using P0 PD D0 unfolding X_def by simp_all
  have Rs: "\<bar>of_int R - s\<bar> \<le> 1 / 2" unfolding R by linarith
  have E3: "\<bar>of_int N * D / 1000 - P\<bar> \<le> D / 2000 + 3001 * D / (1000 * 2 ^ 53)"
  proof -
    have "\<bar>of_int N - 1000 * X\<bar> * (D / 1000) \<le> (1 / 2 + 3001 / 2 ^ 53) * (D / 1000)"
      using E1 D0 by (intro mult_right_mono) simp_all
    moreover have "\<bar>of_int N - 1000 * X\<bar> * (D / 1000) = \<bar>(of_int N - 1000 * X) * (D / 1000)\<bar>"
      using D0 by (simp add: abs_mult)
    moreover have "(of_int N - 1000 * X) * (D / 1000) = of_int N * D / 1000 - P"
      using XD by (simp add: left_diff_distrib)
    ultimately show ?thesis by (simp add: field_simps)
  qed
  have A: "\<bar>of_int R - P\<bar> \<le> 1 / 2 + D / 2000 + D / 2 ^ 50"
  proof (cases "D < 1 / 4")
    case True
    with s have "R = 0" unfolding R by (intro floor_unique) simp_all
    with P0 PD True show ?thesis by simp
  next
    case False
    with Rs E2 E3 e show ?thesis by (unfold power2_values) linarith
  qed
  have B: "\<bar>of_int R - P\<bar> \<le> 1" if "D \<le> 1000"
  proof (cases "D \<le> 999999 / 1000")
    case True
    with A D0 show ?thesis by (unfold power2_values) linarith
  next
    case False
    have "of_int N * (1000 - D) \<le> 1000 * (1 / 1000)"
      using N that False by (intro mult_mono) simp_all
    then have lo: "of_int N - 1 / 1000 \<le> of_int N * D / 1000" by (simp add: field_simps)
    have "of_int N * D \<le> of_int N * 1000" using N that by (intro mult_left_mono) simp_all
    then have hi: "of_int N * D / 1000 \<le> of_int N" by simp
    have "R = N"
      unfolding R using lo hi E2 e that D0 by (intro floor_unique; unfold power2_values) linarith+
    moreover have "X * (1000 - D) \<le> 1 * (1 / 1000)"
      using X that False by (intro mult_mono) simp_all
    then have "1000 * X - P \<le> 1 / 1000" using XD by (simp add: field_simps)
    moreover have "0 \<le> X * (1000 - D)" using X that by simp
    then have "0 \<le> 1000 * X - P" using XD by (simp add: field_simps)
    ultimately show ?thesis using E1 by (unfold power2_values) linarith
  qed
  have C: "\<bar>of_int R - P\<bar> \<le> 1" if "P \<in> \<int>" "D \<le> 2999"
  proof -
    from that(1) obtain k :: int where k: "P = of_int k" by (auto elim: Ints_cases)
    from A that(2) D0 have "\<bar>of_int R - P\<bar> < 2" by (unfold power2_values) linarith
    then have "\<bar>(of_int (R - k) :: real)\<bar> < 2" by (simp add: k)
    then have "\<bar>R - k\<bar> < 2" by linarith
    then have "\<bar>R - k\<bar> \<le> 1" by linarith
    then have "\<bar>(of_int (R - k) :: real)\<bar> \<le> 1" by linarith
    then show ?thesis by (simp add: k)
  qed
  from fin A B C show ?thesis unfolding val P_def D_def by blast
qed

text \<open>The bound at pixel 7 of a dimension of 800: the round trip gives 7 back.\<close>

theorem round_trip_bound_witness:
  "normalizedToPixel (pixelToNormalized (Num 7) (Num 800)) (Num 800) = Num 7 \<and>
   \<bar>fv (normalizedToPixel (pixelToNormalized (Num 7) (Num 800)) (Num 800)) - 7\<bar> \<le> 1"
proof -
  have "is_double (Num 800)" by (simp add: is_double_def fl_eval)
  then have "\<bar>fv (normalizedToPixel (pixelToNormalized (Num 7) (Num 800)) (Num 800)) - fv (Num 7)\<bar> \<le> 1"
    using round_trip_bound [of "Num 7" "Num 800"] by simp
  moreover have "normalizedToPixel (pixelToNormalized (Num 7) (Num 800)) (Num 800) = Num 7"
    by (simp add: normalizedToPixel_def pixelToNormalized_def num_defs fl_eval)
  ultimately show ?thesis by simp
qed

text \<open>
  C3 as stated fails at the width of a 4K display: pixel 2 of 3840 normalizes to 1, which
  converts back to pixel 4.
\<close>

theorem round_trip_counterexample:
  "pixelToNormalized (Num 2) (Num 3840) = Num 1 \<and>
   normalizedToPixel (Num 1) (Num 3840) = Num 4 \<and>
   normalizedToPixel (pixelToNormalized (Num 2) (Num 3840)) (Num 3840) = Num 4 \<and>
   \<not> \<bar>(4::real) - 2\<bar> \<le> 1"
  by (simp add: normalizedToPixel_def pixelToNormalized_def num_defs fl_eval)

section \<open>Matching elements\<close>

lemma js_le_lt_trans: "js_le a b \<Longrightarrow> js_lt b c \<Longrightarrow> js_le a c"
  by (cases a; cases b; cases c) (auto simp: js_le_def js_lt_def)

lemma js_le_refl: "a \<noteq> NaN \<Longrightarrow> js_le a a"
  by (simp add: js_le_def)

lemma foldl_match_step:
  fixes r :: UIElement and cur :: "UIElement list"
  defines "m \<equiv> foldl (match_step r) \<lparr>element = r, similarity = Num 0, matched = False\<rparr> cur"
  shows "element m = r \<and> js_le (Num 0) (similarity m) \<and>
         (similarity m = Num 0 \<or> (\<exists>c\<in>set cur. similarity m = calculateIoU (normalizedBbox c) (normalizedBbox r))) \<and>
         (\<forall>c\<in>set cur. \<not> js_gt (calculateIoU (normalizedBbox c) (normalizedBbox r)) (similarity m)) \<and>
         matched m = js_gt (similarity m) (Num (1 / 2))"
  unfolding m_def
proof (induction cur rule: rev_induct)
  case Nil
  show ?case by (simp add: js_gt_def js_lt_def js_le_def)
next
  case (snoc c cur)
  define b where "b = foldl (match_step r) \<lparr>element = r, similarity = Num 0, matched = False\<rparr> cur"
  note IH = snoc.IH [folded b_def]
  have step: "foldl (match_step r) \<lparr>element = r, similarity = Num 0, matched = False\<rparr> (cur @ [c])
      = match_step r b c" by (simp add: b_def)
  show ?case
  proof (cases "js_gt (calculateIoU (normalizedBbox c) (normalizedBbox r)) (similarity b)")
    case True
    then have new: "match_step r b c =
        \<lparr>element = r, similarity = calculateIoU (normalizedBbox c) (normalizedBbox r), matched = js_gt (calculateIoU (normalizedBbox c) (normalizedBbox r)) (Num (1 / 2))\<rparr>"
      by (simp add: match_step_def Let_def)
    from True have lt: "js_lt (similarity b) (calculateIoU (normalizedBbox c) (normalizedBbox r))" by (simp add: js_gt_def)
    from IH have "js_le (Num 0) (similarity b)" by simp
    from js_le_lt_trans [OF this lt]
    have pos: "js_le (Num 0) (calculateIoU (normalizedBbox c) (normalizedBbox r))" .
    have "\<not> js_gt (calculateIoU (normalizedBbox c') (normalizedBbox r)) (calculateIoU (normalizedBbox c) (normalizedBbox r))" if "c' \<in> set cur" for c'
    proof
      assume "js_gt (calculateIoU (normalizedBbox c') (normalizedBbox r)) (calculateIoU (normalizedBbox c) (normalizedBbox r))"
      then have "js_lt (calculateIoU (normalizedBbox c) (normalizedBbox r)) (calculateIoU (normalizedBbox c') (normalizedBbox r))" by (simp add: js_gt_def)
      with lt have "js_lt (similarity b) (calculateIoU (normalizedBbox c') (normalizedBbox r))" by (rule js_lt_trans)
      with IH that show False by (simp add: js_gt_def)
    qed
    with lt pos show ?thesis
      unfolding step new by (auto simp: js_gt_def)
  next
    case False
    then have "match_step r b c = b" by (simp add: match_step_def Let_def)
    with False IH show ?thesis unfolding step by auto
  qed
qed

lemma match_step_keeps:
  "\<not> js_gt (calculateIoU (normalizedBbox c) (normalizedBbox r)) (similarity b) \<Longrightarrow> match_step r b c = b"
  by (simp add: match_step_def Let_def)

text \<open>
  C5 (amended). \<open>matchElements\<close> returns one result per remembered element, in order.
  The similarity of a result is the greatest of 0 and the IoUs of the remembered element's
  normalized box with the current elements' normalized boxes that are numbers: it is 0
  or one of these IoUs, it is at least 0, and no current element has a greater IoU. An
  IoU that is \<open>NaN\<close> is greater than nothing and is passed over. \<open>matched\<close> holds iff the
  similarity is strictly greater than 0.5; with no current element the similarity is 0
  and \<open>matched\<close> is false; and a current element whose IoU is not greater than the best so
  far does not replace it, so of equal IoUs the first seen is kept.
\<close>

theorem matchElements_spec:
  "length (matchElements cur rem) = length rem \<and>
   (\<forall>i<length rem.
      element (matchElements cur rem ! i) = rem ! i \<and>
      (similarity (matchElements cur rem ! i) = Num 0 \<or>
       (\<exists>c\<in>set cur. similarity (matchElements cur rem ! i) =
                        calculateIoU (normalizedBbox c) (normalizedBbox (rem ! i)))) \<and>
      js_le (Num 0) (similarity (matchElements cur rem ! i)) \<and>
      (\<forall>c\<in>set cur. calculateIoU (normalizedBbox c) (normalizedBbox (rem ! i)) \<noteq> NaN \<longrightarrow>
         js_le (calculateIoU (normalizedBbox c) (normalizedBbox (rem ! i)))
           (similarity (matchElements cur rem ! i))) \<and>
      matched (matchElements cur rem ! i) =
        js_gt (similarity (matchElements cur rem ! i)) (Num (1 / 2)) \<and>
      (cur = [] \<longrightarrow> similarity (matchElements cur rem ! i) = Num 0 \<and>
                    \<not> matched (matchElements cur rem ! i)) \<and>
      (\<forall>b c. \<not> js_gt (calculateIoU (normalizedBbox c) (normalizedBbox (rem ! i))) (similarity b) \<longrightarrow>
             match_step (rem ! i) b c = b))"
proof -
  have len: "length (matchElements cur rem) = length rem"
    by (simp add: matchElements_def)
  have nth: "matchElements cur rem ! i =
      foldl (match_step (rem ! i)) \<lparr>element = rem ! i, similarity = Num 0, matched = False\<rparr> cur"
    if "i < length rem" for i
    using that by (simp add: matchElements_def)
  have empty: "similarity (matchElements cur rem ! i) = Num 0 \<and> \<not> matched (matchElements cur rem ! i)"
    if "i < length rem" "cur = []" for i
    using that by (simp add: matchElements_def)
  have greatest: "js_le (calculateIoU (normalizedBbox c) (normalizedBbox (rem ! i)))
           (similarity (matchElements cur rem ! i))"
    if "i < length rem" "c \<in> set cur" "calculateIoU (normalizedBbox c) (normalizedBbox (rem ! i)) \<noteq> NaN"
    for i c
    using foldl_match_step [of "rem ! i" cur] that
    by (auto simp: nth js_le_def js_gt_def)
  show ?thesis
    using len foldl_match_step [of "rem ! _" cur] empty match_step_keeps greatest
    by (simp add: nth)
qed

text \<open>
  A remembered element against a current element with the identical box: similarity 1,
  matched; against no current element: similarity 0, not matched.
\<close>

theorem matchElements_spec_witness:
  "similarity (matchElements [sample_element 7 (fbox 0 0 10 10)] [sample_element 1 (fbox 0 0 10 10)] ! 0) = Num 1 \<and>
   matched (matchElements [sample_element 7 (fbox 0 0 10 10)] [sample_element 1 (fbox 0 0 10 10)] ! 0) \<and>
   similarity (matchElements [] [sample_element 1 (fbox 0 0 10 10)] ! 0) = Num 0 \<and>
   \<not> matched (matchElements [] [sample_element 1 (fbox 0 0 10 10)] ! 0)"
proof -
  have iou: "calculateIoU (fbox 0 0 10 10) (fbox 0 0 10 10) = Num 1"
    by (simp add: calculateIoU_def Let_def num_defs fl_small_ints fl_eval)
  show ?thesis
    using matchElements_spec [of "[sample_element 7 (fbox 0 0 10 10)]" "[sample_element 1 (fbox 0 0 10 10)]"]
      matchElements_spec [of "[]" "[sample_element 1 (fbox 0 0 10 10)]"]
    by (auto simp: iou js_gt_def js_lt_def js_le_def)
qed

text \<open>
  C5 as stated fails when the only IoU is \<open>NaN\<close>. An element one pixel wide in a viewport
  of 3840 by 2160 has a normalized box of zero width; remembered and seen again with the
  identical box, its IoU with itself is \<open>NaN\<close>, and the result has similarity 0 and is not
  matched, where the claim asks for the maximum IoU and the specification for
  similarity 1 and a match.
\<close>

theorem matchElements_counterexample:
  "pixelBoxToNormalized (fbox 100 100 101 140) (Num 3840) (Num 2160) = fbox 26 46 26 65 \<and>
   calculateIoU (fbox 26 46 26 65) (fbox 26 46 26 65) = NaN \<and>
   matchElements [sample_element 1 (fbox 26 46 26 65)] [sample_element 1 (fbox 26 46 26 65)] =
     [\<lparr>element = sample_element 1 (fbox 26 46 26 65), similarity = Num 0, matched = False\<rparr>]"
proof -
  have n: "pixelBoxToNormalized (fbox 100 100 101 140) (Num 3840) (Num 2160) = fbox 26 46 26 65"
    by (simp add: pixelBoxToNormalized_def pixelToNormalized_def fbox_def num_defs fl_eval)
  have iou: "calculateIoU (fbox 26 46 26 65) (fbox 26 46 26 65) = NaN"
    by (simp add: calculateIoU_def Let_def num_defs fl_eval)
  have "matchElements [sample_element 1 (fbox 26 46 26 65)] [sample_element 1 (fbox 26 46 26 65)] =
     [\<lparr>element = sample_element 1 (fbox 26 46 26 65), similarity = Num 0, matched = False\<rparr>]"
    by (simp add: matchElements_def match_step_def iou js_gt_def js_lt_def)
  with n iou show ?thesis by simp
qed

section \<open>Addresses and their hash\<close>

lemma simpleHash_samples:
  "simpleHash ''https://a.com/x'' = ''dfcusu''" "simpleHash ''not a url'' = ''3859b1''"
  by code_simp+

text \<open>
  C9. The hash of an address is \<open>simpleHash\<close> of the protocol, \<open>//\<close>, the host name
  and the path as the constructor \<open>URL\<close> gives them, and nothing else of the address
  enters it: the query and the fragment of the parsed address can be changed without
  changing the hash, and two addresses that agree on the three parts have the same hash.
  Where the constructor throws, the hash is \<open>simpleHash\<close> of the address itself.
  \<open>saveSession\<close> stores the page memory under the key made of that hash. Two page
  memories with the same \<open>urlHash\<close> are stored under the same key: after both are saved
  the store is as if only the second had been, and it holds the second under that key.
  So when the sessions of two addresses that agree on protocol, host name and path are
  saved one after the other, the store is as if only the second had been saved, and
  \<open>getPageMemory\<close> answers the first address with the memory of the second.
\<close>

theorem urlHash_query_excluded:
  "(newURL u = Some p \<longrightarrow>
      generateUrlHash newURL u = simpleHash (protocol p @ ''//'' @ hostname p @ pathname p) \<and>
      generateUrlHash (newURL(u \<mapsto> p\<lparr>search := q, fragment := f\<rparr>)) u =
        generateUrlHash newURL u) \<and>
   (newURL u = None \<longrightarrow> generateUrlHash newURL u = simpleHash u) \<and>
   (newURL u1 = Some p1 \<and> newURL u2 = Some p2 \<and> protocol p1 = protocol p2 \<and>
      hostname p1 = hostname p2 \<and> pathname p1 = pathname p2 \<longrightarrow>
      generateUrlHash newURL u1 = generateUrlHash newURL u2) \<and>
   (activeSessions tab = Some session \<and> newURL (url session) = Some p' \<longrightarrow>
      saveSession newURL activeSessions tab (Inr (Some vp)) now None store =
        (Inr (),
         store(STORAGE_KEY_PREFIX @
                 simpleHash (protocol p' @ ''//'' @ hostname p' @ pathname p') \<mapsto>
               \<lparr>pm_url = url session,
                urlHash = simpleHash (protocol p' @ ''//'' @ hostname p' @ pathname p'),
                domain = hostname p', elements = detectedElements session,
                screenshotHash = generateScreenshotHash (screenshot session),
                viewport = vp, lastUpdated = now\<rparr>))) \<and>
   (urlHash m1 = urlHash m2 \<longrightarrow>
      snd (savePageMemory None (snd (savePageMemory None store m1)) m2) =
        snd (savePageMemory None store m2) \<and>
      snd (savePageMemory None (snd (savePageMemory None store m1)) m2)
        (STORAGE_KEY_PREFIX @ urlHash m2) = Some m2) \<and>
   (activeSessions t1 = Some s1 \<and> activeSessions t2 = Some s2 \<and>
    newURL (url s1) = Some r1 \<and> newURL (url s2) = Some r2 \<and> protocol r1 = protocol r2 \<and>
    hostname r1 = hostname r2 \<and> pathname r1 = pathname r2 \<longrightarrow>
      snd (saveSession newURL activeSessions t2 (Inr (Some vp2)) now2 None
             (snd (saveSession newURL activeSessions t1 (Inr (Some vp1)) now1 None store))) =
        snd (saveSession newURL activeSessions t2 (Inr (Some vp2)) now2 None store) \<and>
      getPageMemory newURL None
        (snd (saveSession newURL activeSessions t2 (Inr (Some vp2)) now2 None
                (snd (saveSession newURL activeSessions t1 (Inr (Some vp1)) now1 None store))))
        (url s1) =
        Some \<lparr>pm_url = url s2,
              urlHash = simpleHash (protocol r2 @ ''//'' @ hostname r2 @ pathname r2),
              domain = hostname r2, elements = detectedElements s2,
              screenshotHash = generateScreenshotHash (screenshot s2),
              viewport = vp2, lastUpdated = now2\<rparr>)"
  by (simp add: generateUrlHash_def saveSession_def savePageMemory_def getPageMemory_def)

text \<open>
  The addresses \<open>https://a.com/x?y=1\<close> and \<open>https://a.com/x?y=2\<close> have the same hash,
  that of \<open>https://a.com/x\<close>, and saving a memory for the first and then one for the
  second leaves the second alone in the store; a string that is not an address is hashed
  as it is. When a session at the first address is saved and then one at the second,
  the memory read back for the first address is that of the second.
\<close>

theorem urlHash_query_excluded_witness:
  "generateUrlHash sample_newURL ''https://a.com/x?y=1'' = ''dfcusu'' \<and>
   generateUrlHash sample_newURL ''https://a.com/x?y=2'' = ''dfcusu'' \<and>
   generateUrlHash sample_newURL ''not a url'' = ''3859b1'' \<and>
   snd (savePageMemory None
          (snd (savePageMemory None Map.empty (sample_memory ''https://a.com/x?y=1'' 1)))
          (sample_memory ''https://a.com/x?y=2'' 2))
     = Map.empty(''ui_memory_dfcusu'' \<mapsto> sample_memory ''https://a.com/x?y=2'' 2) \<and>
   getPageMemory sample_newURL None
     (snd (saveSession sample_newURL
             [1 \<mapsto> sample_session\<lparr>url := ''https://a.com/x?y=1''\<rparr>,
              2 \<mapsto> sample_session\<lparr>tabId := 2, url := ''https://a.com/x?y=2''\<rparr>]
             2 (Inr (Some \<lparr>width = Num 1000, height = Num 1000\<rparr>)) (Num 2) None
             (snd (saveSession sample_newURL
                     [1 \<mapsto> sample_session\<lparr>url := ''https://a.com/x?y=1''\<rparr>,
                      2 \<mapsto> sample_session\<lparr>tabId := 2, url := ''https://a.com/x?y=2''\<rparr>]
                     1 (Inr (Some \<lparr>width = Num 1000, height = Num 1000\<rparr>)) (Num 1) None
                     Map.empty))))
     ''https://a.com/x?y=1'' =
     Some \<lparr>pm_url = ''https://a.com/x?y=2'', urlHash = ''dfcusu'', domain = ''a.com'',
           elements = [sample_element 1 (fbox 10 10 20 20)],
           screenshotHash = generateScreenshotHash ''c2hvdA=='',
           viewport = \<lparr>width = Num 1000, height = Num 1000\<rparr>, lastUpdated = Num 2\<rparr>"
proof -
  note T = urlHash_query_excluded [where newURL = sample_newURL and store = Map.empty]
  have h1: "generateUrlHash sample_newURL ''https://a.com/x?y=1'' = ''dfcusu''"
    using T [where u = "''https://a.com/x?y=1''"
        and p = "\<lparr>protocol = ''https:'', hostname = ''a.com'', port = [], pathname = ''/x'',
                  search = ''?y=1'', fragment = []\<rparr>"]
    by (simp add: simpleHash_samples)
  have h2: "generateUrlHash sample_newURL ''https://a.com/x?y=2'' = ''dfcusu''"
    using T [where u = "''https://a.com/x?y=2''"
        and p = "\<lparr>protocol = ''https:'', hostname = ''a.com'', port = [], pathname = ''/x'',
                  search = ''?y=2'', fragment = []\<rparr>"]
    by (simp add: simpleHash_samples)
  have h3: "generateUrlHash sample_newURL ''not a url'' = ''3859b1''"
    using T [where u = "''not a url''"] by (simp add: simpleHash_samples)
  have h4: "snd (savePageMemory None
          (snd (savePageMemory None Map.empty (sample_memory ''https://a.com/x?y=1'' 1)))
          (sample_memory ''https://a.com/x?y=2'' 2))
     = snd (savePageMemory None Map.empty (sample_memory ''https://a.com/x?y=2'' 2))"
    using T [where ?m1.0 = "sample_memory ''https://a.com/x?y=1'' 1"
        and ?m2.0 = "sample_memory ''https://a.com/x?y=2'' 2"] h1 h2 by simp
  have h5: "snd (savePageMemory None
          (snd (savePageMemory None Map.empty (sample_memory ''https://a.com/x?y=1'' 1)))
          (sample_memory ''https://a.com/x?y=2'' 2))
     = Map.empty(''ui_memory_dfcusu'' \<mapsto> sample_memory ''https://a.com/x?y=2'' 2)"
    unfolding h4 using h2 by (simp add: savePageMemory_def STORAGE_KEY_PREFIX_def)
  have h6: "getPageMemory sample_newURL None
     (snd (saveSession sample_newURL
             [1 \<mapsto> sample_session\<lparr>url := ''https://a.com/x?y=1''\<rparr>,
              2 \<mapsto> sample_session\<lparr>tabId := 2, url := ''https://a.com/x?y=2''\<rparr>]
             2 (Inr (Some \<lparr>width = Num 1000, height = Num 1000\<rparr>)) (Num 2) None
             (snd (saveSession sample_newURL
                     [1 \<mapsto> sample_session\<lparr>url := ''https://a.com/x?y=1''\<rparr>,
                      2 \<mapsto> sample_session\<lparr>tabId := 2, url := ''https://a.com/x?y=2''\<rparr>]
                     1 (Inr (Some \<lparr>width = Num 1000, height = Num 1000\<rparr>)) (Num 1) None
                     Map.empty))))
     ''https://a.com/x?y=1'' =
     Some \<lparr>pm_url = ''https://a.com/x?y=2'', urlHash = ''dfcusu'', domain = ''a.com'',
           elements = [sample_element 1 (fbox 10 10 20 20)],
           screenshotHash = generateScreenshotHash ''c2hvdA=='',
           viewport = \<lparr>width = Num 1000, height = Num 1000\<rparr>, lastUpdated = Num 2\<rparr>"
    using T [where activeSessions =
          "[1 \<mapsto> sample_session\<lparr>url := ''https://a.com/x?y=1''\<rparr>,
            2 \<mapsto> sample_session\<lparr>tabId := 2, url := ''https://a.com/x?y=2''\<rparr>]"
        and ?t1.0 = 1 and ?t2.0 = 2
        and ?s1.0 = "sample_session\<lparr>url := ''https://a.com/x?y=1''\<rparr>"
        and ?s2.0 = "sample_session\<lparr>tabId := 2, url := ''https://a.com/x?y=2''\<rparr>"
        and ?r1.0 = "\<lparr>protocol = ''https:'', hostname = ''a.com'', port = [], pathname = ''/x'',
                  search = ''?y=1'', fragment = []\<rparr>"
        and ?r2.0 = "\<lparr>protocol = ''https:'', hostname = ''a.com'', port = [], pathname = ''/x'',
                  search = ''?y=2'', fragment = []\<rparr>"
        and ?vp1.0 = "\<lparr>width = Num 1000, height = Num 1000\<rparr>"
        and ?vp2.0 = "\<lparr>width = Num 1000, height = Num 1000\<rparr>"
        and ?now1.0 = "Num 1" and ?now2.0 = "Num 2",
        THEN conjunct2, THEN conjunct2, THEN conjunct2, THEN conjunct2, THEN conjunct2,
        THEN mp, THEN conjunct2]
    by (simp add: simpleHash_samples)
  from h1 h2 h3 h5 h6 show ?thesis by (intro conjI)
qed


section \<open>Annotating an element\<close>

lemma takeWhile_before_stop: "\<not> P x \<Longrightarrow> takeWhile P (r @ x # q) = takeWhile P r"
  by (induction r) auto

lemma dropWhile_before_stop: "\<not> P x \<Longrightarrow> dropWhile P (r @ x # q) = dropWhile P r @ x # q"
  by (induction r) auto

lemma annotate_first_absent:
  "i \<notin> elem_id ` set es \<Longrightarrow> annotate_first i d es = es"
  by (induction es) auto

lemma annotate_first_present:
  "k < length es \<Longrightarrow> elem_id (es ! k) = i \<Longrightarrow> \<forall>j<k. elem_id (es ! j) \<noteq> i \<Longrightarrow>
   annotate_first i d es = es[k := (es ! k)\<lparr>userDescription := Some d\<rparr>]"
proof (induction es arbitrary: k)
  case Nil
  then show ?case by simp
next
  case (Cons e es)
  show ?case
  proof (cases k)
    case 0
    with Cons.prems show ?thesis by simp
  next
    case (Suc k')
    with Cons.prems have "elem_id e \<noteq> i" by auto
    moreover from Suc Cons.prems have "annotate_first i d es = es[k' := (es ! k')\<lparr>userDescription := Some d\<rparr>]"
      by (intro Cons.IH) auto
    ultimately show ?thesis using Suc by simp
  qed
qed

text \<open>
  C7 (amended). On a tab with an active session \<open>annotateElement\<close> returns normally,
  whether or not the id is among the detected elements: the session stays registered, the
  text is recorded in its \<open>userAnnotations\<close> under the id, the other sessions and the
  other fields of the session are unchanged; with an id that no detected element has the
  detected elements are unchanged, and otherwise the first element with the id gets the
  text as its user label, whatever label it had. On a tab without a session the call
  fails with "No active teaching session" and changes nothing.
\<close>

theorem annotateElement_spec:
  "(S tab = None \<longrightarrow>
      annotateElement S tab i d = (Inl (Error ''No active teaching session''), S)) \<and>
   (\<forall>session. S tab = Some session \<longrightarrow>
      fst (annotateElement S tab i d) = Inr () \<and>
      (\<forall>t. t \<noteq> tab \<longrightarrow> snd (annotateElement S tab i d) t = S t) \<and>
      (\<exists>session'. snd (annotateElement S tab i d) tab = Some session' \<and>
         userAnnotations session' = (userAnnotations session)(i \<mapsto> d) \<and>
         tabId session' = tabId session \<and> url session' = url session \<and>
         screenshot session' = screenshot session \<and> isActive session' = isActive session \<and>
         (i \<notin> elem_id ` set (detectedElements session) \<longrightarrow>
            detectedElements session' = detectedElements session) \<and>
         (\<forall>k<length (detectedElements session).
            elem_id (detectedElements session ! k) = i \<and>
            (\<forall>j<k. elem_id (detectedElements session ! j) \<noteq> i) \<longrightarrow>
            detectedElements session' =
              (detectedElements session)
                [k := (detectedElements session ! k)\<lparr>userDescription := Some d\<rparr>])))"
  by (auto simp: annotateElement_def annotate_first_absent annotate_first_present)

text \<open>Annotating element 1 of the sample session with "confirm", and a tab without a session.\<close>

theorem annotateElement_spec_witness:
  "fst (annotateElement (Map.empty(1 \<mapsto> sample_session)) 1 1 ''confirm'') = Inr () \<and>
   (\<exists>session'. snd (annotateElement (Map.empty(1 \<mapsto> sample_session)) 1 1 ''confirm'') 1 = Some session' \<and>
      map userDescription (detectedElements session') = [Some ''confirm'']) \<and>
   annotateElement Map.empty 1 1 ''confirm'' = (Inl (Error ''No active teaching session''), Map.empty)"
  using annotateElement_spec [of "Map.empty(1 \<mapsto> sample_session)" 1 1 "''confirm''"]
    annotateElement_spec [of "Map.empty" 1 1 "''confirm''"]
  by (auto simp: fbox_def)

text \<open>
  C7 as stated fails: annotating id 99, which no detected element of the sample session
  has, reports no error; the call returns normally and the text is kept under 99.
\<close>

theorem annotateElement_unknown_id_counterexample:
  "99 \<notin> elem_id ` set (detectedElements sample_session) \<and>
   fst (annotateElement (Map.empty(1 \<mapsto> sample_session)) 1 99 ''confirm'') = Inr () \<and>
   (\<exists>session'. snd (annotateElement (Map.empty(1 \<mapsto> sample_session)) 1 99 ''confirm'') 1 = Some session' \<and>
      userAnnotations session' 99 = Some ''confirm'')"
  by (simp add: annotateElement_def)

section \<open>Starting a session\<close>

lemma detectElements_fails:
  "\<not> vr_success response \<or> vr_text response = [] \<or> script = Inl e' \<or> script = Inr None \<Longrightarrow>
   \<exists>e. detectElements response script now = Inl e"
  by (auto simp: detectElements_def Let_def)

text \<open>
  C8. When the capture fails, or the capture succeeds and the detection fails,
  \<open>startTeaching\<close> ends with that error and the registry of active sessions is the one
  before the call. The detection fails whenever the model's answer is unsuccessful or
  empty, the viewport script throws, or it gives no viewport.
\<close>

theorem startTeaching_atomic:
  "(capture = Inl e \<longrightarrow>
      startTeaching S tab u capture response script now overlay = (Inl e, S)) \<and>
   (capture = Inr shot \<and> detectElements response script now = Inl e \<longrightarrow>
      startTeaching S tab u capture response script now overlay = (Inl e, S)) \<and>
   (\<not> vr_success response \<or> vr_text response = [] \<or> script = Inl e' \<or> script = Inr None \<longrightarrow>
      (\<exists>e. detectElements response script now = Inl e))"
  using detectElements_fails [of response script e' now]
  by (auto simp: startTeaching_def)

text \<open>
  A failed capture and a failed model call on tab 2, with a session registered on tab 1:
  the registry still holds that session only.
\<close>

theorem startTeaching_atomic_witness:
  "startTeaching (Map.empty(1 \<mapsto> sample_session)) 2 ''https://b.org/'' (Inl (Error ''Screenshot capture failed: no tab''))
      \<lparr>vr_text = ''<box>(10,10),(20,20)</box> OK button'', vr_success = True, vr_error = None\<rparr>
      (Inr (Some \<lparr>width = Num 1000, height = Num 1000\<rparr>)) (\<lambda>_. Num 0) None
    = (Inl (Error ''Screenshot capture failed: no tab''), Map.empty(1 \<mapsto> sample_session)) \<and>
   startTeaching (Map.empty(1 \<mapsto> sample_session)) 2 ''https://b.org/'' (Inr ''c2hvdA=='')
      \<lparr>vr_text = [], vr_success = False, vr_error = Some ''HTTP 500''\<rparr>
      (Inr (Some \<lparr>width = Num 1000, height = Num 1000\<rparr>)) (\<lambda>_. Num 0) None
    = (Inl (Error ''Failed to detect elements: HTTP 500''), Map.empty(1 \<mapsto> sample_session))"
  using startTeaching_atomic [of "Inl (Error ''Screenshot capture failed: no tab'')"
      "Error ''Screenshot capture failed: no tab''" "Map.empty(1 \<mapsto> sample_session)" 2 "''https://b.org/''"
      "\<lparr>vr_text = ''<box>(10,10),(20,20)</box> OK button'', vr_success = True, vr_error = None\<rparr>"
      "Inr (Some \<lparr>width = Num 1000, height = Num 1000\<rparr>)" "\<lambda>_. Num 0" None]
   startTeaching_atomic [of "Inr ''c2hvdA==''" "Error ''Failed to detect elements: HTTP 500''"
      "Map.empty(1 \<mapsto> sample_session)" 2 "''https://b.org/''"
      "\<lparr>vr_text = [], vr_success = False, vr_error = Some ''HTTP 500''\<rparr>"
      "Inr (Some \<lparr>width = Num 1000, height = Num 1000\<rparr>)" "\<lambda>_. Num 0" None "''c2hvdA==''"]
  by (simp add: detectElements_def)


section \<open>Matching the patterns\<close>

lemma lit_Some: "lit p s = Some r \<longleftrightarrow> s = p @ r"
proof
  assume "lit p s = Some r"
  then have "take (length p) s = p" "drop (length p) s = r"
    by (auto simp: lit_def split: if_splits)
  with append_take_drop_id [of "length p" s] show "s = p @ r" by simp
next
  assume "s = p @ r"
  then show "lit p s = Some r" by (simp add: lit_def)
qed

lemma lit_same [simp]: "lit p (p @ r) = Some r"
  by (simp add: lit_Some)

lemma lit_Cons: "lit (a # p) (c # s) = (if a = c then lit p s else None)"
  by (auto simp: lit_def)

lemma lit_Nil: "lit (a # p) [] = None"
  by (simp add: lit_def)

lemma takeWhile_split:
  "takeWhile P (xs @ y # ys) = (if \<forall>x\<in>set xs. P x then xs @ takeWhile P (y # ys) else takeWhile P xs)"
  by (induction xs) auto

lemma dropWhile_split:
  "dropWhile P (xs @ y # ys) = (if \<forall>x\<in>set xs. P x then dropWhile P (y # ys) else dropWhile P xs @ y # ys)"
  by (induction xs) auto

lemma takeWhile_all: "\<forall>x\<in>set xs. P x \<Longrightarrow> takeWhile P xs = xs"
  by simp

lemma dropWhile_all: "\<forall>x\<in>set xs. P x \<Longrightarrow> dropWhile P xs = []"
  by simp

lemma decimal_cases:
  assumes "decimal a"
  obtains (whole) "a \<noteq> []" "\<forall>c\<in>set a. is_digit c"
  | (fraction) ip fp where "a = ip @ CHR ''.'' # fp" "ip \<noteq> []" "\<forall>c\<in>set ip. is_digit c"
      "fp \<noteq> []" "\<forall>c\<in>set fp. is_digit c"
proof (cases "dropWhile is_digit a")
  case Nil
  then have "\<forall>c\<in>set a. is_digit c" by (simp add: dropWhile_eq_Nil_conv)
  moreover from assms have "a \<noteq> []" by (auto simp: decimal_def)
  ultimately show ?thesis using whole by blast
next
  case (Cons c fp)
  with assms have c: "c = CHR ''.''" and fp: "fp \<noteq> []" "\<forall>c\<in>set fp. is_digit c"
    and ip: "takeWhile is_digit a \<noteq> []"
    by (auto simp: decimal_def list_all_iff)
  have "a = takeWhile is_digit a @ dropWhile is_digit a" by simp
  with Cons c have "a = takeWhile is_digit a @ CHR ''.'' # fp" by simp
  moreover have "\<forall>c\<in>set (takeWhile is_digit a). is_digit c"
    by (auto dest: set_takeWhileD)
  ultimately show ?thesis using ip fp fraction by blast
qed

lemma not_digit_point [simp]: "\<not> is_digit (CHR ''.'')"
  by (simp add: is_digit_def)

lemma match_number_decimal:
  assumes "decimal a" "\<not> is_digit x" "x \<noteq> CHR ''.''"
  shows "match_number (a @ x # r) = Some (a, x # r)"
  using assms(1)
proof (cases rule: decimal_cases)
  case whole
  with assms(2,3) show ?thesis
    by (simp add: match_number_def takeWhile_split dropWhile_split)
next
  case (fraction ip fp)
  have 1: "takeWhile is_digit (ip @ CHR ''.'' # fp @ x # r) = ip"
    using fraction by (simp add: takeWhile_split)
  have 2: "dropWhile is_digit (ip @ CHR ''.'' # fp @ x # r) = CHR ''.'' # fp @ x # r"
    using fraction by (simp add: dropWhile_split)
  have 3: "takeWhile is_digit (fp @ x # r) = fp" "dropWhile is_digit (fp @ x # r) = x # r"
    using fraction assms(2) by (simp_all add: takeWhile_split dropWhile_split)
  show ?thesis
    using fraction(2,4) by (simp add: match_number_def fraction(1) 1 2 3)
qed

lemma match_number_sound:
  assumes "match_number s = Some (t, r)"
  shows "s = t @ r \<and> decimal t"
proof -
  define ip where "ip = takeWhile is_digit s"
  define rest where "rest = dropWhile is_digit s"
  have s: "s = ip @ rest" by (simp add: ip_def rest_def)
  have ip: "\<forall>c\<in>set ip. is_digit c" by (auto simp: ip_def dest: set_takeWhileD)
  have hd_rest: "rest = c # q \<Longrightarrow> \<not> is_digit c" for c q
    unfolding rest_def by (metis hd_dropWhile list.sel(1) list.distinct(1))
  from assms have ne: "ip \<noteq> []"
    by (auto simp: match_number_def Let_def ip_def split: if_splits)
  show ?thesis
  proof (cases "\<exists>q. rest = CHR ''.'' # q \<and> takeWhile is_digit q \<noteq> []")
    case True
    then obtain q where q: "rest = CHR ''.'' # q" "takeWhile is_digit q \<noteq> []" by blast
    with assms ne have t: "t = ip @ CHR ''.'' # takeWhile is_digit q" and r: "r = dropWhile is_digit q"
      by (auto simp: match_number_def Let_def ip_def [symmetric] rest_def [symmetric])
    have "s = t @ r" by (simp add: s q t r)
    moreover have "takeWhile is_digit t = ip" "dropWhile is_digit t = CHR ''.'' # takeWhile is_digit q"
      using ip by (simp_all add: t takeWhile_split dropWhile_split)
    then have "decimal t" using ne q(2)
      by (auto simp: decimal_def list_all_iff dest: set_takeWhileD)
    ultimately show ?thesis by simp
  next
    case False
    with assms ne have t: "t = ip" and r: "r = rest"
      by (auto simp: match_number_def Let_def ip_def [symmetric] rest_def [symmetric]
          split: list.splits if_splits)
    have "decimal t"
      unfolding decimal_def t takeWhile_all [OF ip] dropWhile_all [OF ip] using ne by simp
    with s t r show ?thesis by simp
  qed
qed


lemma lit_empty [simp]: "lit [] s = Some s"
  by (simp add: lit_def)

lemma not_digit_lits [simp]:
  "\<not> is_digit (CHR '','')" "\<not> is_digit (CHR '')'')" "\<not> is_digit (CHR ''<'')"
  by (simp_all add: is_digit_def)

lemma matched_text_append [simp]: "matched_text (t @ r) r = t"
  by (simp add: matched_text_def)

lemma match_box_tag:
  assumes "decimal a" "decimal b" "decimal c" "decimal d"
  shows "match_box (box_tag a b c d @ post) =
     Some (\<lparr>gf_type = BoxT, gf_content = box_tag a b c d,
             gf_bbox = Some \<lparr>x1 = parseFloat a, y1 = parseFloat b,
                              x2 = parseFloat c, y2 = parseFloat d\<rparr>,
             gf_point = None, gf_refId = None\<rparr>, post)"
proof -
  have mt: "matched_text (box_tag a b c d @ post) post = box_tag a b c d"
    by (rule matched_text_append)
  have run: "match_box (box_tag a b c d @ post) =
     Some (\<lparr>gf_type = BoxT, gf_content = matched_text (box_tag a b c d @ post) post,
             gf_bbox = Some \<lparr>x1 = parseFloat a, y1 = parseFloat b,
                              x2 = parseFloat c, y2 = parseFloat d\<rparr>,
             gf_point = None, gf_refId = None\<rparr>, post)"
    by (simp add: match_box_def box_tag_def lit_Cons match_number_decimal [OF assms(1)]
        match_number_decimal [OF assms(2)] match_number_decimal [OF assms(3)]
        match_number_decimal [OF assms(4)])
  show ?thesis unfolding run mt ..
qed

lemma match_box_sound:
  assumes "match_box s = Some (f, rest)"
  shows "\<exists>a b c d. decimal a \<and> decimal b \<and> decimal c \<and> decimal d \<and>
           s = box_tag a b c d @ rest \<and>
           f = \<lparr>gf_type = BoxT, gf_content = box_tag a b c d,
                 gf_bbox = Some \<lparr>x1 = parseFloat a, y1 = parseFloat b,
                                  x2 = parseFloat c, y2 = parseFloat d\<rparr>,
                 gf_point = None, gf_refId = None\<rparr>"
proof -
  from assms obtain r0 n1 r1 r2 n2 r3 r4 n3 r5 r6 n4 r7 where
    steps: "lit ''<box>('' s = Some r0" "match_number r0 = Some (n1, r1)"
      "lit '','' r1 = Some r2" "match_number r2 = Some (n2, r3)"
      "lit ''),('' r3 = Some r4" "match_number r4 = Some (n3, r5)"
      "lit '','' r5 = Some r6" "match_number r6 = Some (n4, r7)"
      "lit '')</box>'' r7 = Some rest"
    and f: "f = \<lparr>gf_type = BoxT, gf_content = matched_text s rest,
                 gf_bbox = Some \<lparr>x1 = parseFloat n1, y1 = parseFloat n2,
                                  x2 = parseFloat n3, y2 = parseFloat n4\<rparr>,
                 gf_point = None, gf_refId = None\<rparr>"
    unfolding match_box_def by (auto split: bind_splits)
  from steps have s: "s = box_tag n1 n2 n3 n4 @ rest"
    by (auto simp: lit_Some box_tag_def dest!: match_number_sound)
  from steps have "decimal n1" "decimal n2" "decimal n3" "decimal n4"
    by (auto dest: match_number_sound)
  with s f show ?thesis by (auto simp del: append_assoc)
qed


lemma lit_ext:
  assumes "\<forall>u\<in>set (suffixes p). u \<noteq> [] \<and> hd u = x \<longrightarrow> tl u \<noteq> [] \<and> hd (tl u) \<noteq> y"
  shows "lit p (s @ x # y # X) = map_option (\<lambda>r. r @ x # y # X) (lit p s)"
  using assms
proof (induction p arbitrary: s)
  case Nil
  show ?case by simp
next
  case (Cons a p)
  from Cons.prems have tail: "\<forall>u\<in>set (suffixes p). u \<noteq> [] \<and> hd u = x \<longrightarrow> tl u \<noteq> [] \<and> hd (tl u) \<noteq> y"
    by simp
  show ?case
  proof (cases s)
    case Nil
    from Cons.prems have "a = x \<longrightarrow> p \<noteq> [] \<and> hd p \<noteq> y" by simp
    then have "lit (a # p) (x # y # X) = None"
      by (cases p) (auto simp: lit_Cons)
    with Nil show ?thesis by (simp add: lit_Nil)
  next
    case (Cons c s')
    with Cons.IH [OF tail, of s'] show ?thesis by (simp add: lit_Cons)
  qed
qed

lemma match_number_ext:
  assumes "\<not> is_digit x" "x \<noteq> CHR ''.''"
  shows "match_number (s @ x # X) = map_option (\<lambda>(t, r). (t, r @ x # X)) (match_number s)"
proof -
  have 1: "takeWhile is_digit (s @ x # X) = takeWhile is_digit s"
    by (rule takeWhile_before_stop [of is_digit x, OF assms(1)])
  have 2: "dropWhile is_digit (s @ x # X) = dropWhile is_digit s @ x # X"
    by (rule dropWhile_before_stop [of is_digit x, OF assms(1)])
  show ?thesis
  proof (cases "dropWhile is_digit s")
    case Nil
    show ?thesis unfolding match_number_def Let_def 1 2 Nil using assms(2) by simp
  next
    case (Cons c r')
    have 3: "takeWhile is_digit (r' @ x # X) = takeWhile is_digit r'"
      by (rule takeWhile_before_stop [of is_digit x, OF assms(1)])
    have 4: "dropWhile is_digit (r' @ x # X) = dropWhile is_digit r' @ x # X"
      by (rule dropWhile_before_stop [of is_digit x, OF assms(1)])
    show ?thesis unfolding match_number_def Let_def 1 2 Cons by (simp add: 3 4)
  qed
qed

lemma matched_text_ext [simp]: "matched_text (s @ X) (r @ X) = matched_text s r"
  by (simp add: matched_text_def)

lemma exec_all_skip: "exec_all m k s = exec_all m 0 (drop k s)"
proof (induction s arbitrary: k)
  case Nil
  show ?case by simp
next
  case (Cons c cs)
  show ?case
  proof (cases k)
    case 0
    then show ?thesis by simp
  next
    case (Suc k')
    with Cons.IH [of k'] show ?thesis by simp
  qed
qed

lemma exec_all_match:
  assumes "m (t @ r) = Some (v, r)" "t \<noteq> []"
  shows "exec_all m 0 (t @ r) = v # exec_all m 0 r"
proof -
  from assms(2) obtain c t' where t: "t = c # t'" by (cases t) auto
  have "exec_all m 0 (t @ r) = v # exec_all m (length (t' @ r) - length r) (t' @ r)"
    using assms(1) by (simp add: t)
  also have "exec_all m (length (t' @ r) - length r) (t' @ r) = exec_all m 0 r"
    by (subst exec_all_skip) simp
  finally show ?thesis .
qed

lemma exec_all_append:
  assumes ext: "\<And>p. p \<noteq> [] \<Longrightarrow> m (p @ X) = map_option (\<lambda>(v, r). (v, r @ X)) (m p)"
  shows "exec_all m k (pre @ X) = exec_all m k pre @ exec_all m (k - length pre) X"
proof (induction pre arbitrary: k)
  case Nil
  show ?case by simp
next
  case (Cons c cs)
  show ?case
  proof (cases "0 < k")
    case True
    with Cons.IH [of "k - 1"] show ?thesis by simp
  next
    case False
    then have k: "k = 0" by simp
    have step: "m ((c # cs) @ X) = map_option (\<lambda>(v, r). (v, r @ X)) (m (c # cs))"
      by (rule ext) simp
    show ?thesis
    proof (cases "m (c # cs)")
      case None
      with step Cons.IH [of 0] show ?thesis by (simp add: k)
    next
      case (Some vr)
      obtain v r where vr: "vr = (v, r)" by (cases vr)
      from step Some vr have "m (c # cs @ X) = Some (v, r @ X)" by simp
      moreover have "length cs - length r - length cs = 0" by simp
      ultimately show ?thesis
        using Some vr Cons.IH [of "length cs - length r"] by (simp add: k)
    qed
  qed
qed

lemma exec_all_mem:
  "v \<in> set (exec_all m k s) \<Longrightarrow> \<exists>pre t r. s = pre @ t \<and> m t = Some (v, r)"
proof (induction s arbitrary: k)
  case Nil
  then show ?case by simp
next
  case (Cons c cs)
  have tail: "\<exists>pre t r. c # cs = pre @ t \<and> m t = Some (v, r)"
    if "v \<in> set (exec_all m k' cs)" for k'
  proof -
    from Cons.IH [OF that] obtain pre t r where "cs = pre @ t" "m t = Some (v, r)" by blast
    then have "c # cs = (c # pre) @ t \<and> m t = Some (v, r)" by simp
    then show ?thesis by blast
  qed
  show ?case
  proof (cases "0 < k")
    case True
    with Cons.prems have "v \<in> set (exec_all m (k - 1) cs)" by simp
    then show ?thesis by (rule tail)
  next
    case False
    show ?thesis
    proof (cases "m (c # cs)")
      case None
      with False Cons.prems have "v \<in> set (exec_all m 0 cs)" by simp
      then show ?thesis by (rule tail)
    next
      case (Some vr)
      obtain w r where vr: "vr = (w, r)" by (cases vr)
      with False Some Cons.prems have "v = w \<or> v \<in> set (exec_all m (length cs - length r) cs)"
        by auto
      then show ?thesis
      proof
        assume "v = w"
        with Some vr have "c # cs = [] @ (c # cs) \<and> m (c # cs) = Some (v, r)" by simp
        then show ?thesis by blast
      qed (rule tail)
    qed
  qed
qed


lemma digit_not_tag_char: "is_digit c \<Longrightarrow> c \<noteq> CHR ''<''"
  by (auto simp: is_digit_def)

lemma decimal_no_tag_char:
  assumes "decimal a"
  shows "CHR ''<'' \<notin> set a"
  using assms
proof (cases rule: decimal_cases)
  case whole
  then show ?thesis using digit_not_tag_char by blast
next
  case (fraction ip fp)
  have "CHR ''<'' \<notin> set ip" "CHR ''<'' \<notin> set fp"
    using fraction(3,5) digit_not_tag_char by blast+
  then show ?thesis by (simp add: fraction(1))
qed

lemma box_tag_shape:
  assumes "decimal a" "decimal b" "decimal c" "decimal d"
  shows "\<exists>mid. box_tag a b c d = CHR ''<'' # mid @ ''</box>'' \<and> CHR ''<'' \<notin> set mid"
proof -
  have "box_tag a b c d = CHR ''<'' # (''box>('' @ a @ '','' @ b @ ''),('' @ c @ '','' @ d @ '')'') @ ''</box>''"
    by (simp add: box_tag_def)
  moreover have "CHR ''<'' \<notin> set (''box>('' @ a @ '','' @ b @ ''),('' @ c @ '','' @ d @ '')'')"
    using assms by (simp add: decimal_no_tag_char)
  ultimately show ?thesis by (intro exI conjI)
qed

text \<open>
  A text that starts with \<open>x\<close>, goes on without \<open>x\<close> and closes with \<open>x z \<dots>\<close>, laid
  over an input that goes on with \<open>x y\<close> for some \<open>y \<noteq> z\<close>, ends before that place.
\<close>

lemma closed_before:
  assumes eq: "s @ x # y # X = x # mid @ (x # z # cl) @ r'"
    and mid: "x \<notin> set mid" and cl: "x \<notin> set (z # cl)" and zy: "z \<noteq> y"
    and s: "s \<noteq> []"
  shows "\<exists>us. s = x # mid @ (x # z # cl) @ us"
proof -
  from s eq obtain s1 where s1: "s = x # s1"
    and eq1: "s1 @ x # y # X = mid @ (x # z # cl) @ r'"
    by (cases s) auto
  from eq1 [THEN append_eq_append_conv2 [THEN iffD1]] obtain w where
    w: "s1 = mid @ w \<and> w @ x # y # X = (x # z # cl) @ r' \<or>
        s1 @ w = mid \<and> x # y # X = w @ (x # z # cl) @ r'"
    by blast
  then show ?thesis
  proof
    assume A: "s1 = mid @ w \<and> w @ x # y # X = (x # z # cl) @ r'"
    show ?thesis
    proof (cases w)
      case Nil
      with A zy show ?thesis by simp
    next
      case (Cons w0 w')
      with A have "w0 = x" and "w' @ x # y # X = (z # cl) @ r'" by simp_all
      from this(2) [THEN append_eq_append_conv2 [THEN iffD1]] obtain v where
        v: "w' = (z # cl) @ v \<and> v @ x # y # X = r' \<or>
            w' @ v = z # cl \<and> x # y # X = v @ r'"
        by blast
      then show ?thesis
      proof
        assume "w' = (z # cl) @ v \<and> v @ x # y # X = r'"
        with A Cons \<open>w0 = x\<close> s1 show ?thesis by simp
      next
        assume B: "w' @ v = z # cl \<and> x # y # X = v @ r'"
        show ?thesis
        proof (cases v)
          case Nil
          with B A Cons \<open>w0 = x\<close> s1 show ?thesis by simp
        next
          case v: (Cons v0 v')
          with B have "v0 = x" by simp
          with v have "x \<in> set (w' @ v)" by simp
          moreover from B have "w' @ v = z # cl" by (rule conjunct1)
          then have "set (w' @ v) = set (z # cl)" by (rule arg_cong)
          ultimately show ?thesis using cl by blast
        qed
      qed
    qed
  next
    assume A: "s1 @ w = mid \<and> x # y # X = w @ (x # z # cl) @ r'"
    show ?thesis
    proof (cases w)
      case Nil
      with A zy show ?thesis by simp
    next
      case (Cons w0 w')
      with A have "w0 = x" by simp
      with Cons have "x \<in> set (s1 @ w)" by simp
      moreover from A have "s1 @ w = mid" by (rule conjunct1)
      then have "set (s1 @ w) = set mid" by (rule arg_cong)
      ultimately show ?thesis using mid by blast
    qed
  qed
qed

lemma match_box_ext:
  assumes "s \<noteq> []"
  shows "match_box (s @ CHR ''<'' # CHR ''b'' # X) =
     map_option (\<lambda>(f, r). (f, r @ CHR ''<'' # CHR ''b'' # X)) (match_box s)"
proof (cases "match_box s")
  case (Some fr)
  obtain f r where fr: "fr = (f, r)" by (cases fr)
  from match_box_sound [of s f r] Some fr obtain a b c d where
    dec: "decimal a" "decimal b" "decimal c" "decimal d"
    and s: "s = box_tag a b c d @ r"
    and f: "f = \<lparr>gf_type = BoxT, gf_content = box_tag a b c d,
                 gf_bbox = Some \<lparr>x1 = parseFloat a, y1 = parseFloat b,
                                  x2 = parseFloat c, y2 = parseFloat d\<rparr>,
                 gf_point = None, gf_refId = None\<rparr>"
    by blast
  have "match_box (box_tag a b c d @ (r @ CHR ''<'' # CHR ''b'' # X)) =
      Some (f, r @ CHR ''<'' # CHR ''b'' # X)"
    unfolding f by (rule match_box_tag [OF dec])
  with Some fr s show ?thesis by simp
next
  case None
  have "match_box (s @ CHR ''<'' # CHR ''b'' # X) = None"
  proof (rule ccontr)
    assume "match_box (s @ CHR ''<'' # CHR ''b'' # X) \<noteq> None"
    then obtain f r' where "match_box (s @ CHR ''<'' # CHR ''b'' # X) = Some (f, r')" by auto
    from match_box_sound [OF this] obtain a b c d where
      dec: "decimal a" "decimal b" "decimal c" "decimal d"
      and eq: "s @ CHR ''<'' # CHR ''b'' # X = box_tag a b c d @ r'"
      by blast
    from box_tag_shape [OF dec] obtain mid where
      mid: "box_tag a b c d = CHR ''<'' # mid @ ''</box>''" "CHR ''<'' \<notin> set mid" by blast
    from eq have "s @ CHR ''<'' # CHR ''b'' # X = CHR ''<'' # mid @ (CHR ''<'' # CHR ''/'' # ''box>'') @ r'"
      unfolding mid(1) by simp
    from closed_before [OF this mid(2) _ _ assms] obtain us where
      "s = CHR ''<'' # mid @ (CHR ''<'' # CHR ''/'' # ''box>'') @ us" by auto
    then have "s = box_tag a b c d @ us" unfolding mid(1) by simp
    with match_box_tag [OF dec, of us] None show False by simp
  qed
  with None show ?thesis by simp
qed


lemma match_ref_type: "match_ref s = Some (f, r) \<Longrightarrow> gf_type f = RefT"
  by (auto simp: match_ref_def split: bind_splits)

lemma match_point_type: "match_point s = Some (f, r) \<Longrightarrow> gf_type f = PointT"
  by (auto simp: match_point_def split: bind_splits)

lemma match_box_type: "match_box s = Some (f, r) \<Longrightarrow> gf_type f = BoxT"
  by (auto dest: match_box_sound)

lemma exec_all_types:
  "f \<in> set (exec_all match_ref k s) \<Longrightarrow> gf_type f = RefT"
  "f \<in> set (exec_all match_box k s) \<Longrightarrow> gf_type f = BoxT"
  "f \<in> set (exec_all match_point k s) \<Longrightarrow> gf_type f = PointT"
  by (auto dest!: exec_all_mem dest: match_ref_type match_box_type match_point_type)

lemma map_filter_append: "List.map_filter g (xs @ ys) = List.map_filter g xs @ List.map_filter g ys"
  by (simp add: List.map_filter_def)

lemma map_filter_none: "\<forall>x\<in>set xs. g x = None \<Longrightarrow> List.map_filter g xs = []"
  by (induction xs) (simp_all add: List.map_filter_def)

lemma map_filter_same: "\<forall>x\<in>set xs. g x = h x \<Longrightarrow> List.map_filter g xs = List.map_filter h xs"
  by (induction xs) (simp_all add: List.map_filter_def)

lemma extractBoundingBoxes_scan:
  "extractBoundingBoxes text = List.map_filter gf_bbox (exec_all match_box 0 text)"
proof -
  let ?g = "\<lambda>f. if gf_type f = BoxT then gf_bbox f else None"
  have "List.map_filter ?g (exec_all match_ref 0 text) = []"
    by (rule map_filter_none) (auto dest: exec_all_types)
  moreover have "List.map_filter ?g (exec_all match_point 0 text) = []"
    by (rule map_filter_none) (auto dest: exec_all_types)
  moreover have "List.map_filter ?g (exec_all match_box 0 text) =
      List.map_filter gf_bbox (exec_all match_box 0 text)"
    by (rule map_filter_same) (auto dest: exec_all_types)
  ultimately show ?thesis
    by (simp add: extractBoundingBoxes_def parseGrounding_def map_filter_append)
qed

lemma box_tag_starts: "\<exists>X. box_tag a b c d @ post = CHR ''<'' # CHR ''b'' # X"
  by (simp add: box_tag_def)

lemma box_tag_not_empty: "box_tag a b c d \<noteq> []"
  by (simp add: box_tag_def)

lemma exec_all_box_tag:
  assumes dec: "decimal a" "decimal b" "decimal c" "decimal d"
  shows "exec_all match_box 0 (pre @ box_tag a b c d @ post) =
     exec_all match_box 0 pre @
     \<lparr>gf_type = BoxT, gf_content = box_tag a b c d,
      gf_bbox = Some \<lparr>x1 = parseFloat a, y1 = parseFloat b, x2 = parseFloat c, y2 = parseFloat d\<rparr>,
      gf_point = None, gf_refId = None\<rparr> # exec_all match_box 0 post"
proof -
  obtain X where X: "box_tag a b c d @ post = CHR ''<'' # CHR ''b'' # X"
    using box_tag_starts by blast
  have "exec_all match_box 0 (pre @ CHR ''<'' # CHR ''b'' # X) =
      exec_all match_box 0 pre @ exec_all match_box (0 - length pre) (CHR ''<'' # CHR ''b'' # X)"
    by (rule exec_all_append) (rule match_box_ext)
  then have "exec_all match_box 0 (pre @ box_tag a b c d @ post) =
      exec_all match_box 0 pre @ exec_all match_box 0 (box_tag a b c d @ post)"
    unfolding X by simp
  also have "exec_all match_box 0 (box_tag a b c d @ post) =
     \<lparr>gf_type = BoxT, gf_content = box_tag a b c d,
      gf_bbox = Some \<lparr>x1 = parseFloat a, y1 = parseFloat b, x2 = parseFloat c, y2 = parseFloat d\<rparr>,
      gf_point = None, gf_refId = None\<rparr> # exec_all match_box 0 post"
    by (rule exec_all_match [of match_box "box_tag a b c d" post,
          OF match_box_tag [OF dec, of post] box_tag_not_empty])
  finally show ?thesis .
qed

lemma digit_val_nonneg: "is_digit c \<Longrightarrow> 0 \<le> digit_val c"
  by (auto simp: is_digit_def digit_val_def)

lemma foldl_digits:
  "foldl (\<lambda>acc c. 10 * acc + digit_val c) n ds =
     n * 10 ^ length ds + foldl (\<lambda>acc c. 10 * acc + digit_val c) 0 ds"
proof (induction ds arbitrary: n)
  case Nil
  show ?case by simp
next
  case (Cons c ds)
  show ?case
    using Cons.IH [of "10 * n + digit_val c"] Cons.IH [of "digit_val c"]
    by (simp add: algebra_simps)
qed

lemma digits_value_Cons:
  "digits_value (c # cs) = digit_val c * 10 ^ length cs + digits_value cs"
  using foldl_digits [of "digit_val c" cs] by (simp add: digits_value_def)

text \<open>The digits the parser reads by Horner's rule have the value of their places.\<close>

lemma digits_value_whole: "of_int (digits_value ds) = whole_value ds"
  by (induction ds) (simp_all add: digits_value_Cons, simp add: digits_value_def)

lemma digits_value_fraction: "of_int (digits_value ds) / 10 ^ length ds = fraction_value ds"
proof (induction ds)
  case Nil
  show ?case by (simp add: digits_value_def)
next
  case (Cons c cs)
  have "real_of_int (digits_value (c # cs)) / 10 ^ length (c # cs) =
      (real_of_int (digit_val c) + real_of_int (digits_value cs) / 10 ^ length cs) / 10"
    by (simp add: digits_value_Cons field_simps)
  then show ?case by (simp only: Cons.IH fraction_value.simps)
qed

lemma whole_value_nonneg: "\<forall>c\<in>set ds. is_digit c \<Longrightarrow> 0 \<le> whole_value ds"
  by (induction ds) (simp_all add: digit_val_nonneg)

lemma fraction_value_nonneg: "\<forall>c\<in>set ds. is_digit c \<Longrightarrow> 0 \<le> fraction_value ds"
  by (induction ds) (simp_all add: digit_val_nonneg)

lemma fl_nonneg_cases:
  assumes "0 \<le> x"
  shows "(\<exists>v\<ge>0. fl x = Num v) \<or> fl x = PosInf"
proof (cases "is_finite (fl x)")
  case True
  with fv_fl_nonneg [OF assms] assms show ?thesis
    by (cases "fl x") (auto simp: fl_unfold zero_signed_def inf_signed_def split: if_splits)
next
  case False
  with assms show ?thesis
    by (auto simp: fl_unfold zero_signed_def inf_signed_def split: if_splits)
qed

lemma parseFloat_decimal:
  assumes "decimal a"
  shows "parseFloat a = fl (decimal_value a)" and "0 \<le> decimal_value a"
proof -
  have "parseFloat a = fl (decimal_value a) \<and> 0 \<le> decimal_value a"
    using assms
  proof (cases rule: decimal_cases)
    case whole
    have "parseFloat a = fl (real_of_int (digits_value a))"
      unfolding parseFloat_def Let_def takeWhile_all [OF whole(2)] dropWhile_all [OF whole(2)]
      using whole(1) by simp
    moreover have "decimal_value a = whole_value a"
      unfolding decimal_value_def takeWhile_all [OF whole(2)] dropWhile_all [OF whole(2)]
      by simp
    ultimately show ?thesis
      using whole_value_nonneg [OF whole(2)] by (simp add: digits_value_whole)
  next
    case (fraction ip fp)
    have 1: "takeWhile is_digit a = ip" "dropWhile is_digit a = CHR ''.'' # fp"
      using fraction by (simp_all add: takeWhile_split dropWhile_split)
    have 2: "takeWhile is_digit fp = fp" using fraction by simp
    have "parseFloat a =
        fl (real_of_int (digits_value ip) + real_of_int (digits_value fp) / 10 ^ length fp)"
      using fraction(2) by (simp add: parseFloat_def 1 2)
    then have "parseFloat a = fl (real_of_int (digits_value ip) + fraction_value fp)"
      by (simp only: digits_value_fraction)
    then have "parseFloat a = fl (whole_value ip + fraction_value fp)"
      by (simp only: digits_value_whole)
    moreover have "decimal_value a = whole_value ip + fraction_value fp"
      by (simp add: decimal_value_def 1)
    moreover have "0 \<le> whole_value ip" "0 \<le> fraction_value fp"
      using fraction by (simp_all add: whole_value_nonneg fraction_value_nonneg)
    ultimately show ?thesis by simp
  qed
  then show "parseFloat a = fl (decimal_value a)" and "0 \<le> decimal_value a" by simp_all
qed


section \<open>Boxes of a text\<close>

text \<open>
  C6. Wherever a tag \<open><box>(a,b),(c,d)</box>\<close> with decimal coordinates occurs in a
  text, \<open>extractBoundingBoxes\<close> yields the boxes of what is before it, then the box
  with the numbers of \<open>a\<close>, \<open>b\<close>, \<open>c\<close>, \<open>d\<close>, then the boxes of what is behind it: the
  boxes come in the order of their tags. The number of a decimal is the JavaScript
  number it denotes: the double nearest to its value, which is not negative, or
  \<open>Infinity\<close> when the value is beyond the range of the doubles. Every box it yields
  comes from such a tag in the text, so anything malformed yields nothing; the parser is
  a total function and has no error to raise.
\<close>

theorem extractBoundingBoxes_spec:
  "(decimal a \<and> decimal b \<and> decimal c \<and> decimal d \<longrightarrow>
      extractBoundingBoxes (pre @ box_tag a b c d @ post) =
        extractBoundingBoxes pre @
        \<lparr>x1 = parseFloat a, y1 = parseFloat b, x2 = parseFloat c, y2 = parseFloat d\<rparr> #
        extractBoundingBoxes post \<and>
      parseFloat a = fl (decimal_value a) \<and> parseFloat b = fl (decimal_value b) \<and>
      parseFloat c = fl (decimal_value c) \<and> parseFloat d = fl (decimal_value d) \<and>
      0 \<le> decimal_value a \<and> 0 \<le> decimal_value b \<and>
      0 \<le> decimal_value c \<and> 0 \<le> decimal_value d) \<and>
   (0 \<le> v \<longrightarrow> (\<exists>w\<ge>0. fl v = Num w \<and> \<bar>w - v\<bar> \<le> v / 2 ^ 53 + pow2 (- 1075)) \<or> fl v = PosInf) \<and>
   (bb \<in> set (extractBoundingBoxes text) \<longrightarrow>
      (\<exists>pre a b c d post. decimal a \<and> decimal b \<and> decimal c \<and> decimal d \<and>
         text = pre @ box_tag a b c d @ post \<and>
         bb = \<lparr>x1 = parseFloat a, y1 = parseFloat b, x2 = parseFloat c, y2 = parseFloat d\<rparr>))"
proof -
  have found: "extractBoundingBoxes (pre @ box_tag a b c d @ post) =
        extractBoundingBoxes pre @
        \<lparr>x1 = parseFloat a, y1 = parseFloat b, x2 = parseFloat c, y2 = parseFloat d\<rparr> #
        extractBoundingBoxes post"
    if "decimal a" "decimal b" "decimal c" "decimal d"
    unfolding extractBoundingBoxes_scan exec_all_box_tag [OF that]
    by (simp add: List.map_filter_def)
  have numbers: "parseFloat a = fl (decimal_value a) \<and> parseFloat b = fl (decimal_value b) \<and>
      parseFloat c = fl (decimal_value c) \<and> parseFloat d = fl (decimal_value d) \<and>
      0 \<le> decimal_value a \<and> 0 \<le> decimal_value b \<and>
      0 \<le> decimal_value c \<and> 0 \<le> decimal_value d"
    if "decimal a" "decimal b" "decimal c" "decimal d"
    using that [THEN parseFloat_decimal(1)] that [THEN parseFloat_decimal(2)] by simp
  have rounded: "(\<exists>w\<ge>0. fl v = Num w \<and> \<bar>w - v\<bar> \<le> v / 2 ^ 53 + pow2 (- 1075)) \<or> fl v = PosInf"
    if v: "0 \<le> v"
  proof (cases "fl v = PosInf")
    case False
    with fl_nonneg_cases [OF v] obtain w where w: "0 \<le> w" "fl v = Num w" by blast
    then have "is_finite (fl v)" by simp
    from fl_error_bound [OF this] v w have "\<bar>w - v\<bar> \<le> v * pow2 (- 53) + pow2 (- 1075)" by simp
    moreover have "pow2 (- 53) = 1 / 2 ^ 53" by (simp add: pow2_def)
    ultimately show ?thesis using w by auto
  qed simp
  have only: "\<exists>pre a b c d post. decimal a \<and> decimal b \<and> decimal c \<and> decimal d \<and>
         text = pre @ box_tag a b c d @ post \<and>
         bb = \<lparr>x1 = parseFloat a, y1 = parseFloat b, x2 = parseFloat c, y2 = parseFloat d\<rparr>"
    if "bb \<in> set (extractBoundingBoxes text)"
  proof -
    from that obtain f where f: "f \<in> set (exec_all match_box 0 text)" "gf_bbox f = Some bb"
      by (auto simp: extractBoundingBoxes_scan List.map_filter_def)
    from exec_all_mem [OF f(1)] obtain pre t r where
      t: "text = pre @ t" "match_box t = Some (f, r)" by blast
    from match_box_sound [OF t(2)] obtain a' b' c' d' where
      dec: "decimal a'" "decimal b'" "decimal c'" "decimal d'"
      and tag: "t = box_tag a' b' c' d' @ r"
      and fmt: "f = \<lparr>gf_type = BoxT, gf_content = box_tag a' b' c' d',
            gf_bbox = Some \<lparr>x1 = parseFloat a', y1 = parseFloat b',
                             x2 = parseFloat c', y2 = parseFloat d'\<rparr>,
            gf_point = None, gf_refId = None\<rparr>"
      by blast
    from t(1) tag have "text = pre @ box_tag a' b' c' d' @ r" by simp
    moreover from f(2) fmt
    have "bb = \<lparr>x1 = parseFloat a', y1 = parseFloat b', x2 = parseFloat c', y2 = parseFloat d'\<rparr>"
      by simp
    ultimately show ?thesis using dec by blast
  qed
  from found numbers rounded only show ?thesis by blast
qed

lemma parseFloat_samples:
  "parseFloat ''10'' = Num 10" "parseFloat ''20'' = Num 20"
  "parseFloat ''30.5'' = Num (61 / 2)" "parseFloat ''40'' = Num 40"
  "parseFloat ''50'' = Num 50" "parseFloat ''60'' = Num 60"
  "parseFloat ''0'' = Num 0" "parseFloat ''1'' = Num 1"
  "parseFloat ''9007199254740993'' = Num 9007199254740992"
  by code_simp+

text \<open>
  Two well-formed tags with a malformed one between them: the two boxes, in order. A
  coordinate of 16 digits that no double holds: the nearest double, one away from the
  value of the decimal. And the box found in a text with one tag comes from that tag.
\<close>

theorem extractBoundingBoxes_spec_witness:
  "extractBoundingBoxes
     ''<box>(10,10),(20,20)</box> OK <box>(1,2)</box> <box>(30.5,40),(50,60)</box>'' =
     [fbox 10 10 20 20, fbox (61 / 2) 40 50 60] \<and>
   extractBoundingBoxes ''<box>(9007199254740993,0),(1,1)</box>'' =
     [fbox 9007199254740992 0 1 1] \<and>
   fl (decimal_value ''9007199254740993'') = Num 9007199254740992 \<and>
   (\<exists>w\<ge>0. fl 9007199254740993 = Num w \<and>
      \<bar>w - 9007199254740993\<bar> \<le> 9007199254740993 / 2 ^ 53 + pow2 (- 1075)) \<and>
   (\<exists>pre a b c d post. decimal a \<and> decimal b \<and> decimal c \<and> decimal d \<and>
      ''<box>(10,10),(20,20)</box> OK'' = pre @ box_tag a b c d @ post \<and>
      fbox 10 10 20 20 =
        \<lparr>x1 = parseFloat a, y1 = parseFloat b, x2 = parseFloat c, y2 = parseFloat d\<rparr>)"
proof -
  have dec: "decimal ''10''" "decimal ''20''" "decimal ''30.5''" "decimal ''40''"
    "decimal ''50''" "decimal ''60''" "decimal ''0''" "decimal ''1''"
    "decimal ''9007199254740993''"
    by code_simp+
  note val = parseFloat_samples
  have junk: "extractBoundingBoxes [] = []" "extractBoundingBoxes '' OK <box>(1,2)</box> '' = []"
    "extractBoundingBoxes '' OK'' = []"
    by code_simp+
  have t1: "''<box>(10,10),(20,20)</box> OK <box>(1,2)</box> <box>(30.5,40),(50,60)</box>'' =
      [] @ box_tag ''10'' ''10'' ''20'' ''20'' @
      '' OK <box>(1,2)</box> '' @ box_tag ''30.5'' ''40'' ''50'' ''60'' @ []"
    by (simp add: box_tag_def)
  have t2: "''<box>(10,10),(20,20)</box> OK'' = [] @ box_tag ''10'' ''10'' ''20'' ''20'' @ '' OK''"
    by (simp add: box_tag_def)
  have t3: "''<box>(9007199254740993,0),(1,1)</box>'' =
      [] @ box_tag ''9007199254740993'' ''0'' ''1'' ''1'' @ []"
    by (simp add: box_tag_def)
  have first: "extractBoundingBoxes
     ''<box>(10,10),(20,20)</box> OK <box>(1,2)</box> <box>(30.5,40),(50,60)</box>'' =
     [fbox 10 10 20 20, fbox (61 / 2) 40 50 60]"
    unfolding t1
    using extractBoundingBoxes_spec [where a = "''10''" and b = "''10''" and c = "''20''"
        and d = "''20''" and pre = "[]"
        and post = "'' OK <box>(1,2)</box> '' @ box_tag ''30.5'' ''40'' ''50'' ''60'' @ []"]
      extractBoundingBoxes_spec [where a = "''30.5''" and b = "''40''" and c = "''50''"
        and d = "''60''" and pre = "'' OK <box>(1,2)</box> ''" and post = "[]"]
      dec
    by (simp add: val junk fbox_def)
  have big: "extractBoundingBoxes ''<box>(9007199254740993,0),(1,1)</box>'' =
     [fbox 9007199254740992 0 1 1]"
    unfolding t3
    using extractBoundingBoxes_spec [where a = "''9007199254740993''" and b = "''0''"
        and c = "''1''" and d = "''1''" and pre = "[]" and post = "[]"] dec
    by (simp add: val junk fbox_def)
  have one: "extractBoundingBoxes ''<box>(10,10),(20,20)</box> OK'' = [fbox 10 10 20 20]"
    unfolding t2
    using extractBoundingBoxes_spec [where a = "''10''" and b = "''10''" and c = "''20''"
        and d = "''20''" and pre = "[]" and post = "'' OK''"] dec
    by (simp add: val junk fbox_def)
  have second: "\<exists>pre a b c d post. decimal a \<and> decimal b \<and> decimal c \<and> decimal d \<and>
      ''<box>(10,10),(20,20)</box> OK'' = pre @ box_tag a b c d @ post \<and>
      fbox 10 10 20 20 =
        \<lparr>x1 = parseFloat a, y1 = parseFloat b, x2 = parseFloat c, y2 = parseFloat d\<rparr>"
    using extractBoundingBoxes_spec [where bb = "fbox 10 10 20 20"
        and ?text = "''<box>(10,10),(20,20)</box> OK''"]
    unfolding one by simp
  have denoted: "fl (decimal_value ''9007199254740993'') = Num 9007199254740992"
    using extractBoundingBoxes_spec [where a = "''9007199254740993''" and b = "''0''"
        and c = "''1''" and d = "''1''"] dec
    by (simp add: val)
  have nearest: "fl 9007199254740993 = Num 9007199254740992"
    by (simp add: fl_eval)
  have rounded: "\<exists>w\<ge>0. fl 9007199254740993 = Num w \<and>
      \<bar>w - 9007199254740993\<bar> \<le> 9007199254740993 / 2 ^ 53 + pow2 (- 1075)"
    using extractBoundingBoxes_spec [where v = 9007199254740993]
    by (simp add: nearest)
  from first big denoted rounded second show ?thesis by blast
qed


section \<open>Order of the parsed results\<close>

lemma filter_all: "\<forall>x\<in>set xs. P x \<Longrightarrow> filter P xs = xs"
  by (induction xs) simp_all

lemma filter_none: "\<forall>x\<in>set xs. \<not> P x \<Longrightarrow> filter P xs = []"
  by (induction xs) simp_all

lemma sorted_wrt_map_Suc: "sorted_wrt (<) ps \<Longrightarrow> sorted_wrt (<) (map Suc ps)"
  by (simp add: sorted_wrt_map)

text \<open>The matches that the loop of a global pattern finds lie at increasing places.\<close>

lemma exec_all_in_document_order: "in_document_order m s (exec_all m k s)"
proof (induction s arbitrary: k)
  case Nil
  show ?case by (simp add: in_document_order_def)
next
  case (Cons c cs)
  have shift: "in_document_order m (c # cs) vs" if "in_document_order m cs vs" for vs
  proof -
    from that obtain ps where ps: "length ps = length vs" "sorted_wrt (<) ps"
      "\<And>j. j < length vs \<Longrightarrow> ps ! j < length cs \<and> (\<exists>r. m (drop (ps ! j) cs) = Some (vs ! j, r))"
      unfolding in_document_order_def by blast
    show ?thesis
      unfolding in_document_order_def
      using ps by (intro exI [of _ "map Suc ps"]) (simp add: sorted_wrt_map_Suc)
  qed
  show ?case
  proof (cases "0 < k")
    case True
    with shift [OF Cons.IH [of "k - 1"]] show ?thesis by simp
  next
    case False
    show ?thesis
    proof (cases "m (c # cs)")
      case None
      with False shift [OF Cons.IH [of 0]] show ?thesis by simp
    next
      case (Some vr)
      obtain v r where vr: "vr = (v, r)" by (cases vr)
      define vs where "vs = exec_all m (length cs - length r) cs"
      from Cons.IH [of "length cs - length r"] obtain ps where ps: "length ps = length vs"
        "sorted_wrt (<) ps"
        "\<And>j. j < length vs \<Longrightarrow> ps ! j < length cs \<and> (\<exists>r. m (drop (ps ! j) cs) = Some (vs ! j, r))"
        unfolding in_document_order_def vs_def by blast
      have ex: "exec_all m k (c # cs) = v # vs" using False Some vr by (simp add: vs_def)
      have "in_document_order m (c # cs) (v # vs)"
        unfolding in_document_order_def
      proof (intro exI [of _ "0 # map Suc ps"] conjI allI impI)
        show "length (0 # map Suc ps) = length (v # vs)" using ps(1) by simp
        show "sorted_wrt (<) (0 # map Suc ps)" using ps(2) by (simp add: sorted_wrt_map_Suc)
      next
        fix j
        assume j: "j < length (v # vs)"
        show "(0 # map Suc ps) ! j < length (c # cs)"
          using j ps(1) ps(3) [of "j - 1"] by (cases j) simp_all
        show "\<exists>r. m (drop ((0 # map Suc ps) ! j) (c # cs)) = Some ((v # vs) ! j, r)"
          using j ps(1) ps(3) [of "j - 1"] Some vr by (cases j) simp_all
      qed
      then show ?thesis unfolding ex .
    qed
  qed
qed

text \<open>
  C10. The results of \<open>parseGrounding\<close> are grouped by kind: the list is its
  references, then its boxes, then its points. So whatever the places of the tags in the
  text, every result before a reference is a reference and every result behind a point
  is a point. The results of one kind keep the order of the text: they are the matches
  of the pattern of their kind at increasing places of the text.
\<close>

theorem parseGrounding_grouped:
  "parseGrounding text =
     filter (\<lambda>f. gf_type f = RefT) (parseGrounding text) @
     filter (\<lambda>f. gf_type f = BoxT) (parseGrounding text) @
     filter (\<lambda>f. gf_type f = PointT) (parseGrounding text) \<and>
   (\<forall>i j. i < j \<and> j < length (parseGrounding text) \<longrightarrow>
      (gf_type (parseGrounding text ! j) = RefT \<longrightarrow> gf_type (parseGrounding text ! i) = RefT) \<and>
      (gf_type (parseGrounding text ! i) = PointT \<longrightarrow> gf_type (parseGrounding text ! j) = PointT)) \<and>
   in_document_order match_ref text (filter (\<lambda>f. gf_type f = RefT) (parseGrounding text)) \<and>
   in_document_order match_box text (filter (\<lambda>f. gf_type f = BoxT) (parseGrounding text)) \<and>
   in_document_order match_point text (filter (\<lambda>f. gf_type f = PointT) (parseGrounding text))"
proof -
  define R where "R = exec_all match_ref 0 text"
  define B where "B = exec_all match_box 0 text"
  define P where "P = exec_all match_point 0 text"
  have R: "\<forall>f\<in>set R. gf_type f = RefT" and B: "\<forall>f\<in>set B. gf_type f = BoxT"
    and P: "\<forall>f\<in>set P. gf_type f = PointT"
    unfolding R_def B_def P_def by (auto dest: exec_all_types)
  have pg: "parseGrounding text = R @ B @ P"
    by (simp add: parseGrounding_def R_def B_def P_def)
  have fR: "filter (\<lambda>f. gf_type f = RefT) (R @ B @ P) = R"
    using R B P by (simp add: filter_all filter_none)
  have fB: "filter (\<lambda>f. gf_type f = BoxT) (R @ B @ P) = B"
    using R B P by (simp add: filter_all filter_none)
  have fP: "filter (\<lambda>f. gf_type f = PointT) (R @ B @ P) = P"
    using R B P by (simp add: filter_all filter_none)
  have grouped: "parseGrounding text =
     filter (\<lambda>f. gf_type f = RefT) (parseGrounding text) @
     filter (\<lambda>f. gf_type f = BoxT) (parseGrounding text) @
     filter (\<lambda>f. gf_type f = PointT) (parseGrounding text)"
    unfolding pg fR fB fP ..
  have places: "in_document_order match_ref text R" "in_document_order match_box text B"
    "in_document_order match_point text P"
    unfolding R_def B_def P_def by (rule exec_all_in_document_order)+
  have later: "gf_type ((R @ B @ P) ! n) \<noteq> RefT" if "length R \<le> n" "n < length (R @ B @ P)" for n
  proof -
    from that have "(R @ B @ P) ! n = (B @ P) ! (n - length R)" "n - length R < length (B @ P)"
      by (simp_all add: nth_append)
    then have "(R @ B @ P) ! n \<in> set (B @ P)" by (metis nth_mem)
    with B P show ?thesis by auto
  qed
  have earlier: "gf_type ((R @ B @ P) ! n) \<noteq> PointT" if "n < length R + length B" for n
  proof -
    from that have "(R @ B @ P) ! n = (R @ B) ! n" "n < length (R @ B)"
      by (simp_all add: nth_append)
    then have "(R @ B @ P) ! n \<in> set (R @ B)" by (metis nth_mem)
    with R B show ?thesis by auto
  qed
  have inside: "gf_type ((R @ B @ P) ! n) = RefT" if "n < length R" for n
    using that R by (simp add: nth_append)
  have last: "gf_type ((R @ B @ P) ! n) = PointT"
    if "length R + length B \<le> n" "n < length (R @ B @ P)" for n
  proof -
    from that have "(R @ B @ P) ! n = P ! (n - length R - length B)"
      "n - length R - length B < length P"
      by (simp_all add: nth_append)
    with P show ?thesis by simp
  qed
  have order: "(gf_type ((R @ B @ P) ! j) = RefT \<longrightarrow> gf_type ((R @ B @ P) ! i) = RefT) \<and>
      (gf_type ((R @ B @ P) ! i) = PointT \<longrightarrow> gf_type ((R @ B @ P) ! j) = PointT)"
    if "i < j" "j < length (R @ B @ P)" for i j
  proof (intro conjI impI)
    assume "gf_type ((R @ B @ P) ! j) = RefT"
    with later [of j] that have "j < length R" by (cases "j < length R") auto
    with that(1) have "i < length R" by simp
    then show "gf_type ((R @ B @ P) ! i) = RefT" by (rule inside)
  next
    assume "gf_type ((R @ B @ P) ! i) = PointT"
    with earlier [of i] have "length R + length B \<le> i" by (cases "i < length R + length B") auto
    with that have "length R + length B \<le> j" by simp
    then show "gf_type ((R @ B @ P) ! j) = PointT" using that(2) by (rule last)
  qed
  from grouped order places show ?thesis unfolding pg fR fB fP by blast
qed

text \<open>
  A text with a point, a box, two references and another point, in this order: the
  references come first in the result and the points last, the references and the points
  in the order of the text; the two points are matches of the pattern of points at two
  places of the text, the first before the second.
\<close>

theorem parseGrounding_grouped_witness:
  "map gf_type (parseGrounding
     ''<point>(1,2)</point><box>(1,2),(3,4)</box><ref>a</ref><ref>b</ref><point>(5,6)</point>'') =
     [RefT, RefT, BoxT, PointT, PointT] \<and>
   map gf_content (parseGrounding
     ''<point>(1,2)</point><box>(1,2),(3,4)</box><ref>a</ref><ref>b</ref><point>(5,6)</point>'') =
     [''a'', ''b'', ''<box>(1,2),(3,4)</box>'', ''<point>(1,2)</point>'', ''<point>(5,6)</point>''] \<and>
   gf_type (parseGrounding
     ''<point>(1,2)</point><box>(1,2),(3,4)</box><ref>a</ref><ref>b</ref><point>(5,6)</point>'' ! 0) = RefT \<and>
   gf_type (parseGrounding
     ''<point>(1,2)</point><box>(1,2),(3,4)</box><ref>a</ref><ref>b</ref><point>(5,6)</point>'' ! 4) = PointT \<and>
   (\<exists>p q r s. p < q \<and>
      match_point (drop p
        ''<point>(1,2)</point><box>(1,2),(3,4)</box><ref>a</ref><ref>b</ref><point>(5,6)</point>'') =
        Some (parseGrounding
          ''<point>(1,2)</point><box>(1,2),(3,4)</box><ref>a</ref><ref>b</ref><point>(5,6)</point>'' ! 3, r) \<and>
      match_point (drop q
        ''<point>(1,2)</point><box>(1,2),(3,4)</box><ref>a</ref><ref>b</ref><point>(5,6)</point>'') =
        Some (parseGrounding
          ''<point>(1,2)</point><box>(1,2),(3,4)</box><ref>a</ref><ref>b</ref><point>(5,6)</point>'' ! 4, s))"
proof -
  let ?t = "''<point>(1,2)</point><box>(1,2),(3,4)</box><ref>a</ref><ref>b</ref><point>(5,6)</point>''"
  have types: "map gf_type (parseGrounding ?t) = [RefT, RefT, BoxT, PointT, PointT]"
    by code_simp
  have contents: "map gf_content (parseGrounding ?t) =
      [''a'', ''b'', ''<box>(1,2),(3,4)</box>'', ''<point>(1,2)</point>'', ''<point>(5,6)</point>'']"
    by code_simp
  have len: "length (parseGrounding ?t) = 5"
    by code_simp
  have known: "gf_type (parseGrounding ?t ! 1) = RefT" "gf_type (parseGrounding ?t ! 3) = PointT"
    by code_simp+
  note order = parseGrounding_grouped [of ?t, THEN conjunct2, THEN conjunct1, rule_format]
  have first: "gf_type (parseGrounding ?t ! 0) = RefT"
    using order [of 0 1] known(1) len by simp
  have last: "gf_type (parseGrounding ?t ! 4) = PointT"
    using order [of 3 4] known(2) len by simp
  have points: "filter (\<lambda>f. gf_type f = PointT) (parseGrounding ?t) =
      [parseGrounding ?t ! 3, parseGrounding ?t ! 4]"
    by code_simp
  from parseGrounding_grouped [of ?t, THEN conjunct2, THEN conjunct2, THEN conjunct2,
      THEN conjunct2]
  have "in_document_order match_point ?t [parseGrounding ?t ! 3, parseGrounding ?t ! 4]"
    unfolding points .
  then obtain ps where
    ps: "length ps = length [parseGrounding ?t ! 3, parseGrounding ?t ! 4]" "sorted_wrt (<) ps"
    and at: "\<forall>j<length [parseGrounding ?t ! 3, parseGrounding ?t ! 4].
      ps ! j < length ?t \<and>
      (\<exists>r. match_point (drop (ps ! j) ?t) =
         Some ([parseGrounding ?t ! 3, parseGrounding ?t ! 4] ! j, r))"
    unfolding in_document_order_def by blast
  from ps have "ps ! 0 < ps ! 1" by (simp add: sorted_wrt_iff_nth_less)
  moreover from at [rule_format, of 0] obtain r where
    "match_point (drop (ps ! 0) ?t) = Some (parseGrounding ?t ! 3, r)" by auto
  moreover from at [rule_format, of 1] obtain s where
    "match_point (drop (ps ! 1) ?t) = Some (parseGrounding ?t ! 4, s)" by auto
  ultimately have places: "\<exists>p q r s. p < q \<and>
      match_point (drop p ?t) = Some (parseGrounding ?t ! 3, r) \<and>
      match_point (drop q ?t) = Some (parseGrounding ?t ! 4, s)" by blast
  from types contents first last places show ?thesis by (intro conjI)
qed


section \<open>Detected elements\<close>

lemma enumerate_ids: "map (\<lambda>p. Suc (fst p)) (enumerate 0 xs) = [1..<Suc (length xs)]"
proof -
  have "map (\<lambda>p. Suc (fst p)) (enumerate 0 xs) = map Suc (map fst (enumerate 0 xs))"
    by (simp only: map_map comp_def)
  also have "\<dots> = [1..<Suc (length xs)]" by (simp add: map_Suc_upt)
  finally show ?thesis .
qed

text \<open>
  What \<open>detectElements\<close> does for every answer it accepts: one element per parsed box,
  in order, with the ids 1, 2, \<dots>, confidence 0.8 and no user label.
\<close>

lemma detectElements_shape:
  assumes "detectElements response script now = Inr es"
  shows "\<exists>G. es = map G (enumerate 0 (extractBoundingBoxes (vr_text response))) \<and>
           (\<forall>p. elem_id (G p) = Suc (fst p) \<and> bbox (G p) = snd p \<and>
                confidence (G p) = fl (8 / 10) \<and> userDescription (G p) = None)"
proof -
  from assms obtain vp where "script = Inr (Some vp)"
    and "vr_success response" "vr_text response \<noteq> []"
    unfolding detectElements_def Let_def
    by (auto split: if_splits sum.splits option.splits)
  with assms show ?thesis
    unfolding detectElements_def Let_def
    by (intro exI [of _ "\<lambda>p. \<lparr>elem_id = fst p + 1, bbox = snd p,
          normalizedBbox = pixelBoxToNormalized (snd p) (width vp) (height vp),
          autoDescription =
            (case desc_match
                    (if fst p < length (filter (\<lambda>line. includes_str line ''<box>'')
                                         (split_on (CHR 0x0A) (vr_text response)))
                     then filter (\<lambda>line. includes_str line ''<box>'')
                            (split_on (CHR 0x0A) (vr_text response)) ! fst p
                     else []) of
               Some g \<Rightarrow> trim g
             | None \<Rightarrow> ''Element '' @ nat_to_string (fst p + 1)),
          userDescription = None, elementType = None, confidence = fl (8 / 10),
          timestamp = now (fst p)\<rparr>"])
      (auto simp: split_beta)
qed

lemma detectElements_elements:
  assumes "detectElements response script now = Inr es"
  shows "map elem_id es = [1..<Suc (length es)]"
    and "map bbox es = extractBoundingBoxes (vr_text response)"
    and "\<forall>e\<in>set es. confidence e = fl (8 / 10) \<and> userDescription e = None"
proof -
  from detectElements_shape [OF assms] obtain G where
    es: "es = map G (enumerate 0 (extractBoundingBoxes (vr_text response)))"
    and G: "\<And>p. elem_id (G p) = Suc (fst p)" "\<And>p. bbox (G p) = snd p"
      "\<And>p. confidence (G p) = fl (8 / 10)" "\<And>p. userDescription (G p) = None"
    by blast
  show "map elem_id es = [1..<Suc (length es)]"
    unfolding es by (simp add: G comp_def enumerate_ids del: upt_Suc)
  show "map bbox es = extractBoundingBoxes (vr_text response)"
    unfolding es by (simp add: G comp_def)
  show "\<forall>e\<in>set es. confidence e = fl (8 / 10) \<and> userDescription e = None"
    unfolding es using G by (auto simp del: in_set_enumerate_eq)
qed

text \<open>
  C4. On the answer \<open><box>(10,10),(20,20)</box> OK button\<close> the code yields one element
  with id 1, but with the placeholder "Element 1" as its description, not "OK button":
  the pattern \<open>/\]\s*(.+)$/\<close> finds a description only behind a closing bracket, and
  the line has none. The format the prompt of the code asks for,
  \<open><box>(x1,y1),(x2,y2)</box> [description]\<close>, ends with the bracket, so there the
  pattern finds nothing either.
\<close>

theorem detectElements_drops_description:
  "detectElements
     \<lparr>vr_text = ''<box>(10,10),(20,20)</box> OK button'', vr_success = True, vr_error = None\<rparr>
     (Inr (Some \<lparr>width = Num 1000, height = Num 1000\<rparr>)) (\<lambda>_. Num 0) =
   Inr [\<lparr>elem_id = 1, bbox = fbox 10 10 20 20, normalizedBbox = fbox 10 10 20 20,
         autoDescription = ''Element 1'', userDescription = None, elementType = None,
         confidence = fl (8 / 10), timestamp = Num 0\<rparr>] \<and>
   detectElements
     \<lparr>vr_text = ''<box>(10,10),(20,20)</box> [OK button]'', vr_success = True, vr_error = None\<rparr>
     (Inr (Some \<lparr>width = Num 1000, height = Num 1000\<rparr>)) (\<lambda>_. Num 0) =
   Inr [\<lparr>elem_id = 1, bbox = fbox 10 10 20 20, normalizedBbox = fbox 10 10 20 20,
         autoDescription = ''Element 1'', userDescription = None, elementType = None,
         confidence = fl (8 / 10), timestamp = Num 0\<rparr>]"
  by code_simp


text \<open>The descriptions of the elements detected in the answer of C4: the placeholder alone.\<close>

theorem detectElements_drops_description_witness:
  "(case detectElements
       \<lparr>vr_text = ''<box>(10,10),(20,20)</box> OK button'', vr_success = True, vr_error = None\<rparr>
       (Inr (Some \<lparr>width = Num 1000, height = Num 1000\<rparr>)) (\<lambda>_. Num 0) of
      Inl e \<Rightarrow> []
    | Inr es \<Rightarrow> map (\<lambda>e. (elem_id e, autoDescription e)) es) = [(1, ''Element 1'')]"
  using detectElements_drops_description by simp

section \<open>Transport correlator\<close>

lemma settle_fields [simp]:
  "connected (settle i out s) = connected s"
  "messageId (settle i out s) = messageId s"
  "pendingMessages (settle i out s) = pendingMessages s"
  "messageTimeout (settle i out s) = messageTimeout s"
  "posted (settle i out s) = posted s"
  "timers (settle i out s) = timers s"
  by (simp_all add: settle_def split: option.splits)

lemma settled_settle:
  "settled (settle i out s) j = (if j = i \<and> settled s i = None then Some out else settled s j)"
  by (simp add: settle_def split: option.splits)

lemma foldl_settle_fields [simp]:
  "connected (foldl (\<lambda>st i. settle i out st) s xs) = connected s"
  "messageId (foldl (\<lambda>st i. settle i out st) s xs) = messageId s"
  "pendingMessages (foldl (\<lambda>st i. settle i out st) s xs) = pendingMessages s"
  "messageTimeout (foldl (\<lambda>st i. settle i out st) s xs) = messageTimeout s"
  "posted (foldl (\<lambda>st i. settle i out st) s xs) = posted s"
  "timers (foldl (\<lambda>st i. settle i out st) s xs) = timers s"
  by (induction xs arbitrary: s) simp_all

lemma settled_foldl_settle:
  "settled (foldl (\<lambda>st i. settle i out st) s xs) j =
     (if j \<in> set xs \<and> settled s j = None then Some out else settled s j)"
  by (induction xs arbitrary: s) (auto simp: settled_settle)

lemma counter_ahead_new: "counter_ahead (new_provider t)"
  by (simp add: counter_ahead_def new_provider_def)





lemma counter_ahead_dispose: "counter_ahead s \<Longrightarrow> counter_ahead (dispose s)"
  by (auto simp: counter_ahead_def dispose_def settled_foldl_settle split: if_splits)





end
